theory Spec2Isabelle
  imports Complex_Main "HOL-Library.Multiset"
begin

section \<open>The lobby server of src/server.js\<close>

text \<open>
  The server keeps a module-level \<^verbatim>\<open>rooms\<close> map from room codes to room objects and,
  for every WebSocket connection, a closure holding \<^verbatim>\<open>playerId\<close> and \<^verbatim>\<open>currentRoom\<close>.
  Room objects are shared between the registry and the closures, so rooms live in an
  explicit heap (a list indexed by address) and both the registry and the closures hold
  addresses.

  Conventions of the embedding:
  \<^item> a player id is the string \<^verbatim>\<open>Date.now().toString()\<close>;
  \<^item> a connection handle \<^verbatim>\<open>ws\<close> is the index of its closure in the list of sessions;
  \<^item> a JavaScript \<^verbatim>\<open>Map\<close> whose iteration order is observed (\<^verbatim>\<open>players\<close>) is an
    association list in insertion order;
  \<^item> \<^verbatim>\<open>Math.random()\<close> is a stream of reals, \<^verbatim>\<open>Date.now()\<close> a natural number and
    \<^verbatim>\<open>ws.readyState === WebSocket.OPEN\<close> a predicate on connections, all three given
    to a handler by its environment;
  \<^item> every \<^verbatim>\<open>ws.send\<close> is recorded, in order, as a pair of the connection and the
    message;
  \<^item> \<^verbatim>\<open>undefined\<close> and \<^verbatim>\<open>null\<close> are \<open>None\<close>.
\<close>

subsection \<open>Data\<close>

type_synonym pid = string
type_synonym conn = nat
type_synonym addr = nat

text \<open>An entry of \<^verbatim>\<open>roles\<close>; the count is a non-negative integer, so the loop
  \<^verbatim>\<open>for (let i = 0; i < role.count; i++)\<close> runs \<open>count'\<close> times.\<close>

record role =
  name :: string
  count' :: nat

text \<open>The value held in \<^verbatim>\<open>roles\<close>. updateSettings stores \<^verbatim>\<open>data.roles\<close> as it arrives, so it
  need not be an array of role entries. \<open>NotRoleArray\<close> stands for every value, given by its
  JSON text, on which \<^verbatim>\<open>roles.forEach(role => { ... role.count ... })\<close> throws: a value
  that is no array (also a missing one), or an array with a \<^verbatim>\<open>null\<close> element.\<close>

datatype roles_value = RoleArray "role list" | NotRoleArray string

record player =
  id' :: pid
  ws :: conn
  joinTime :: nat

record room =
  code :: string
  host :: "pid option"
  maxPlayers :: int
  roles :: roles_value
  players :: "(pid \<times> player) list"
  gameStarted :: bool

subsection \<open>The methods of Map and Array that the handlers call\<close>

text \<open>\<^verbatim>\<open>Map.prototype.set\<close>: an existing key keeps its position, a new key goes last.\<close>

primrec map_set :: "'k \<Rightarrow> 'v \<Rightarrow> ('k \<times> 'v) list \<Rightarrow> ('k \<times> 'v) list" where
  "map_set k v [] = [(k, v)]"
| "map_set k v (e # es) = (if fst e = k then (k, v) # es else e # map_set k v es)"

text \<open>\<^verbatim>\<open>Map.prototype.delete\<close>.\<close>

primrec map_delete :: "'k \<Rightarrow> ('k \<times> 'v) list \<Rightarrow> ('k \<times> 'v) list" where
  "map_delete k [] = []"
| "map_delete k (e # es) = (if fst e = k then es else e # map_delete k es)"

text \<open>\<^verbatim>\<open>Map.prototype.get\<close> is \<open>map_of\<close>, \<^verbatim>\<open>size\<close> is \<open>length\<close>, \<^verbatim>\<open>keys()\<close> is
  \<open>map fst\<close> and \<^verbatim>\<open>values()\<close> is \<open>map snd\<close>.\<close>

text \<open>\<^verbatim>\<open>xs[i]\<close>: reading past the end gives \<^verbatim>\<open>undefined\<close>.\<close>

definition array_get :: "'a list \<Rightarrow> nat \<Rightarrow> 'a option" where
  "array_get xs i = (if i < length xs then Some (xs ! i) else None)"

text \<open>\<^verbatim>\<open>xs.splice(i, 1)\<close>: removes the element at \<open>i\<close>, nothing past the end.\<close>

definition splice1 :: "nat \<Rightarrow> 'a list \<Rightarrow> 'a list" where
  "splice1 i xs = take i xs @ drop (Suc i) xs"

text \<open>\<^verbatim>\<open>Math.floor(Math.random() * n)\<close> for the value \<open>r\<close> of \<^verbatim>\<open>Math.random()\<close>.\<close>

definition randomIndex :: "real \<Rightarrow> nat \<Rightarrow> nat" where
  "randomIndex r n = nat \<lfloor>r * real n\<rfloor>"

text \<open>\<^verbatim>\<open>Math.random()\<close> returns a number in \<open>[0, 1)\<close>.\<close>

definition random_ok :: "(nat \<Rightarrow> real) \<Rightarrow> bool" where
  "random_ok rnd \<longleftrightarrow> (\<forall>i. 0 \<le> rnd i \<and> rnd i < 1)"

subsection \<open>Role assignment (startGame, lines 178-194)\<close>

text \<open>\<^verbatim>\<open>currentRoom.roles.forEach(role => { for (i < role.count) allRoles.push(role.name) })\<close>\<close>

fun allRoles_of :: "role list \<Rightarrow> string list" where
  "allRoles_of [] = []"
| "allRoles_of (r # rs) = replicate (count' r) (name r) @ allRoles_of rs"

text \<open>
  The loop over \<^verbatim>\<open>players\<close>. \<open>i\<close> counts the calls of \<^verbatim>\<open>Math.random()\<close> made so far,
  \<open>allRoles\<close> is the array as the loop has left it, \<open>assignments\<close> the map being filled.
  A stored value is \<open>Some label\<close>, or \<open>None\<close> when \<^verbatim>\<open>allRoles[randomIndex]\<close> was
  \<^verbatim>\<open>undefined\<close>.
\<close>

fun drawRoles ::
  "pid list \<Rightarrow> (nat \<Rightarrow> real) \<Rightarrow> nat \<Rightarrow> string list \<Rightarrow> (pid \<rightharpoonup> string option) \<Rightarrow> (pid \<rightharpoonup> string option)"
where
  "drawRoles [] rnd i allRoles assignments = assignments"
| "drawRoles (p # ps) rnd i allRoles assignments =
     (let idx = randomIndex (rnd i) (length allRoles)
      in drawRoles ps rnd (Suc i) (splice1 idx allRoles) (assignments(p \<mapsto> array_get allRoles idx)))"

definition assignRoles :: "pid list \<Rightarrow> role list \<Rightarrow> (nat \<Rightarrow> real) \<Rightarrow> (pid \<rightharpoonup> string option)" where
  "assignRoles ps rs rnd = drawRoles ps rnd 0 (allRoles_of rs) Map.empty"

text \<open>\<^verbatim>\<open>assignments.get(pid)\<close>: \<^verbatim>\<open>undefined\<close> for a missing key as for a stored \<^verbatim>\<open>undefined\<close>.\<close>

definition assignments_get :: "(pid \<rightharpoonup> string option) \<Rightarrow> pid \<Rightarrow> string option" where
  "assignments_get assignments p = (case assignments p of None \<Rightarrow> None | Some v \<Rightarrow> v)"

text \<open>The labels handed to a list of players, as a multiset.\<close>

definition dealt :: "(pid \<rightharpoonup> string option) \<Rightarrow> pid list \<Rightarrow> string option multiset" where
  "dealt assignments ps = image_mset (assignments_get assignments) (mset ps)"

text \<open>The number of copies of a label that a role pool configures.\<close>

definition configured :: "role list \<Rightarrow> string \<Rightarrow> nat" where
  "configured rs n = sum_list (map count' (filter (\<lambda>r. name r = n) rs))"


subsection \<open>Number.prototype.toString\<close>

definition digit_char :: "nat \<Rightarrow> char" where
  "digit_char d = ''0123456789'' ! (d mod 10)"

text \<open>The decimal numeral of a non-negative integer.\<close>

fun toString :: "nat \<Rightarrow> string" where
  "toString n = (if n < 10 then [digit_char n] else toString (n div 10) @ [digit_char (n mod 10)])"

declare toString.simps [simp del]

subsection \<open>The server state\<close>

text \<open>The closure of one connection: \<^verbatim>\<open>playerId\<close> and \<^verbatim>\<open>currentRoom\<close> (line 48-49).\<close>

record session =
  playerId :: pid
  currentRoom :: "addr option"

record server =
  heap :: "room list"
  rooms :: "string \<rightharpoonup> addr"
  sessions :: "session list"

definition init :: server where
  "init = \<lparr>heap = [], rooms = Map.empty, sessions = []\<rparr>"

text \<open>What a handler reads from outside: the clock, the random numbers it will draw
  (\<open>randoms e 0\<close> first) and which sockets are open.\<close>

record env =
  now :: nat
  randoms :: "nat \<Rightarrow> real"
  isOpen :: "conn \<Rightarrow> bool"

text \<open>The three texts sent with type \<^verbatim>\<open>error\<close>: room code does not exist (line 98),
  game already started (line 106), room is full (line 114).\<close>

datatype error_message = RoomNotFound | GameAlreadyStarted | RoomFull

text \<open>Outgoing messages. \<open>GameState\<close> carries roomCode, maxPlayers, roles,
  currentPlayers, gameStarted, hostId and isHost, in this order.\<close>

datatype out_msg =
    RoomCreated string pid bool
  | RoomJoined string pid bool
  | ErrorMsg error_message
  | GameResult "string option"
  | GameState string int roles_value nat bool "pid option" bool

type_synonym sends = "(conn \<times> out_msg) list"

text \<open>Incoming messages after \<^verbatim>\<open>JSON.parse\<close>. \<open>JoinRoom\<close> carries
  \<^verbatim>\<open>data.roomCode.toString()\<close>; \<open>UpdateSettings\<close> and \<open>StartGame\<close> carry
  \<^verbatim>\<open>data.playerId\<close> (\<open>None\<close> is \<^verbatim>\<open>null\<close>; a value that is neither a string nor
  \<^verbatim>\<open>null\<close> compares like a string different from the host). \<open>Unhandled\<close> is a
  message that changes nothing and sends nothing: one that \<^verbatim>\<open>JSON.parse\<close> rejects, one whose
  \<^verbatim>\<open>type\<close> matches no case, or a joinRoom whose \<^verbatim>\<open>roomCode\<close> is missing, where
  \<^verbatim>\<open>toString\<close> throws into the handler's catch before anything is done.\<close>

datatype message =
    CreateRoom
  | JoinRoom string
  | LeaveRoom
  | UpdateSettings "pid option" int roles_value
  | StartGame "pid option"
  | Unhandled

subsection \<open>createRoom and generateRoomCode (lines 23-44)\<close>

text \<open>The two default labels, as the UTF-8 bytes of the Korean words in the source
  (U+B2F9 U+CCA8 and U+AF5D).\<close>

definition role_win :: string where
  "role_win = [CHR 0xEB, CHR 0x8B, CHR 0xB9, CHR 0xEC, CHR 0xB2, CHR 0xA8]"

definition role_blank :: string where
  "role_blank = [CHR 0xEA, CHR 0xBD, CHR 0x9D]"

definition createRoom :: "string \<Rightarrow> room" where
  "createRoom roomCode =
     \<lparr>code = roomCode, host = None, maxPlayers = 5,
      roles = RoleArray [\<lparr>name = role_win, count' = 3\<rparr>, \<lparr>name = role_blank, count' = 2\<rparr>],
      players = [], gameStarted = False\<rparr>"

text \<open>The do-while loop; \<open>i\<close> counts the draws made so far. The loop has no bound, so the
  result is \<open>None\<close> when it never leaves.\<close>

partial_function (option) generateRoomCode ::
  "(string \<rightharpoonup> addr) \<Rightarrow> (nat \<Rightarrow> real) \<Rightarrow> nat \<Rightarrow> string option"
where
  "generateRoomCode rms rnd i =
     (if rms (toString (nat \<lfloor>1000 + rnd i * 9000\<rfloor>)) \<noteq> None
      then generateRoomCode rms rnd (Suc i)
      else Some (toString (nat \<lfloor>1000 + rnd i * 9000\<rfloor>)))"

subsection \<open>broadcastGameState (lines 239-260)\<close>

definition broadcastGameState :: "room \<Rightarrow> (conn \<Rightarrow> bool) \<Rightarrow> sends" where
  "broadcastGameState room opn =
     map (\<lambda>(k, playerData).
            (ws playerData,
             GameState (code room) (maxPlayers room) (roles room) (length (players room))
               (gameStarted room) (host room) (Some (id' playerData) = host room)))
         (filter (\<lambda>(k, playerData). opn (ws playerData)) (players room))"

subsection \<open>The message handler (lines 53-214)\<close>

definition set_currentRoom :: "conn \<Rightarrow> addr option \<Rightarrow> server \<Rightarrow> server" where
  "set_currentRoom c v s = s\<lparr>sessions := (sessions s)[c := (sessions s ! c)\<lparr>currentRoom := v\<rparr>]\<rparr>"

definition createRoom_case :: "conn \<Rightarrow> env \<Rightarrow> server \<Rightarrow> (server \<times> sends) option" where
  "createRoom_case c e s =
     (case generateRoomCode (rooms s) (randoms e) 0 of
        None \<Rightarrow> None
      | Some roomCode \<Rightarrow>
          (let pid = playerId (sessions s ! c);
               newRoom = createRoom roomCode;
               newRoom = newRoom\<lparr>host := Some pid\<rparr>;
               newRoom = newRoom\<lparr>players :=
                 map_set pid \<lparr>id' = pid, ws = c, joinTime = now e\<rparr> (players newRoom)\<rparr>;
               a = length (heap s);
               s = s\<lparr>heap := heap s @ [newRoom], rooms := (rooms s)(roomCode \<mapsto> a)\<rparr>;
               s = set_currentRoom c (Some a) s
           in Some (s, (c, RoomCreated roomCode pid True) # broadcastGameState newRoom (isOpen e))))"

definition joinRoom_case :: "conn \<Rightarrow> string \<Rightarrow> env \<Rightarrow> server \<Rightarrow> server \<times> sends" where
  "joinRoom_case c roomCode e s =
     (case rooms s roomCode of
        None \<Rightarrow> (s, [(c, ErrorMsg RoomNotFound)])
      | Some a \<Rightarrow>
          (let room = heap s ! a in
           if gameStarted room then (s, [(c, ErrorMsg GameAlreadyStarted)])
           else if maxPlayers room \<le> int (length (players room)) then (s, [(c, ErrorMsg RoomFull)])
           else
             (let pid = playerId (sessions s ! c);
                  room = room\<lparr>players :=
                    map_set pid \<lparr>id' = pid, ws = c, joinTime = now e\<rparr> (players room)\<rparr>;
                  s = s\<lparr>heap := (heap s)[a := room]\<rparr>;
                  s = set_currentRoom c (Some a) s
              in (s, (c, RoomJoined roomCode pid (Some pid = host room))
                       # broadcastGameState room (isOpen e)))))"

text \<open>\<^verbatim>\<open>Array.from(players.values()).sort((a, b) => a.joinTime - b.joinTime)[0]\<close>: the
  sort is stable, as \<open>sort_key\<close> is; the result is \<^verbatim>\<open>undefined\<close> on an empty map.\<close>

definition oldestPlayer :: "(pid \<times> player) list \<Rightarrow> player option" where
  "oldestPlayer ps = array_get (sort_key joinTime (map snd ps)) 0"

text \<open>Lines 144-150 and, with the same text, lines 219-225: delete the player, then
  replace the host. Reading \<^verbatim>\<open>.id\<close> of \<^verbatim>\<open>undefined\<close> would throw; the guard
  \<^verbatim>\<open>players.size > 0\<close> excludes it.\<close>

definition removePlayer :: "pid \<Rightarrow> room \<Rightarrow> room" where
  "removePlayer pid room =
     (let room = room\<lparr>players := map_delete pid (players room)\<rparr> in
      if Some pid = host room \<and> 0 < length (players room)
      then (case oldestPlayer (players room) of
              Some oldest \<Rightarrow> room\<lparr>host := Some (id' oldest)\<rparr>
            | None \<Rightarrow> room)
      else room)"

definition leaveRoom_case :: "conn \<Rightarrow> env \<Rightarrow> server \<Rightarrow> server \<times> sends" where
  "leaveRoom_case c e s =
     (case currentRoom (sessions s ! c) of
        None \<Rightarrow> (s, [])
      | Some a \<Rightarrow>
          (let roomCode = code (heap s ! a);
               room = removePlayer (playerId (sessions s ! c)) (heap s ! a);
               s = s\<lparr>heap := (heap s)[a := room]\<rparr>
           in if length (players room) = 0
              then (set_currentRoom c None (s\<lparr>rooms := (rooms s)(roomCode := None)\<rparr>), [])
              else (set_currentRoom c None s, broadcastGameState room (isOpen e))))"

definition updateSettings_case ::
  "conn \<Rightarrow> pid option \<Rightarrow> int \<Rightarrow> roles_value \<Rightarrow> env \<Rightarrow> server \<Rightarrow> server \<times> sends"
where
  "updateSettings_case c data_playerId data_maxPlayers data_roles e s =
     (case currentRoom (sessions s ! c) of
        None \<Rightarrow> (s, [])
      | Some a \<Rightarrow>
          if data_playerId = host (heap s ! a)
          then (let room = (heap s ! a)\<lparr>maxPlayers := data_maxPlayers, roles := data_roles\<rparr>
                in (s\<lparr>heap := (heap s)[a := room]\<rparr>, broadcastGameState room (isOpen e)))
          else (s, []))"

text \<open>The private \<^verbatim>\<open>gameResult\<close> messages (lines 197-204).\<close>

definition gameResults :: "room \<Rightarrow> (pid \<rightharpoonup> string option) \<Rightarrow> (conn \<Rightarrow> bool) \<Rightarrow> sends" where
  "gameResults room assignments opn =
     map (\<lambda>(pid, playerData). (ws playerData, GameResult (assignments_get assignments pid)))
         (filter (\<lambda>(pid, playerData). opn (ws playerData)) (players room))"

text \<open>The startGame case. \<^verbatim>\<open>gameStarted\<close> is set (line 176) before the role pool is
  expanded (line 183). On a \<^verbatim>\<open>roles\<close> value that is not an array of role entries the
  expansion throws; the catch of the message handler (lines 211-213) only logs, so the
  handler ends there, with \<^verbatim>\<open>gameStarted\<close> true and nothing sent.\<close>

definition startGame_case :: "conn \<Rightarrow> pid option \<Rightarrow> env \<Rightarrow> server \<Rightarrow> server \<times> sends" where
  "startGame_case c data_playerId e s =
     (case currentRoom (sessions s ! c) of
        None \<Rightarrow> (s, [])
      | Some a \<Rightarrow>
          if data_playerId = host (heap s ! a) \<and> \<not> gameStarted (heap s ! a)
          then (let room = (heap s ! a)\<lparr>gameStarted := True\<rparr>;
                    s = s\<lparr>heap := (heap s)[a := room]\<rparr>
                in case roles room of
                     NotRoleArray v \<Rightarrow> (s, [])
                   | RoleArray rs \<Rightarrow>
                       (let assignments = assignRoles (map fst (players room)) rs (randoms e)
                        in (s, gameResults room assignments (isOpen e)
                               @ broadcastGameState room (isOpen e))))
          else (s, []))"

fun on_message :: "conn \<Rightarrow> message \<Rightarrow> env \<Rightarrow> server \<Rightarrow> (server \<times> sends) option" where
  "on_message c CreateRoom e s = createRoom_case c e s"
| "on_message c (JoinRoom roomCode) e s = Some (joinRoom_case c roomCode e s)"
| "on_message c LeaveRoom e s = Some (leaveRoom_case c e s)"
| "on_message c (UpdateSettings p m r) e s = Some (updateSettings_case c p m r e s)"
| "on_message c (StartGame p) e s = Some (startGame_case c p e s)"
| "on_message c Unhandled e s = Some (s, [])"

subsection \<open>The close handler (lines 216-234)\<close>

definition on_close :: "conn \<Rightarrow> env \<Rightarrow> server \<Rightarrow> server \<times> sends" where
  "on_close c e s =
     (case currentRoom (sessions s ! c) of
        None \<Rightarrow> (s, [])
      | Some a \<Rightarrow>
          (let room = removePlayer (playerId (sessions s ! c)) (heap s ! a);
               s = s\<lparr>heap := (heap s)[a := room]\<rparr>
           in if length (players room) = 0
              then (s\<lparr>rooms := (rooms s)(code room := None)\<rparr>, [])
              else (s, broadcastGameState room (isOpen e))))"

subsection \<open>Events and reachable states\<close>

text \<open>\<open>Connection t\<close> is a new socket at clock value \<open>t\<close>: its closure is appended, so
  its handle is the next index. A message or a close for a handle that was never opened
  runs no handler. \<open>step\<close> is \<open>None\<close> when the handler does not return. The reachable
  states allow every order of events, also orders the transport excludes (a message after
  the close of its socket), and equal clock values for different connections.\<close>

datatype event = Connection nat | Message conn message env | Close conn env

fun step :: "event \<Rightarrow> server \<Rightarrow> (server \<times> sends) option" where
  "step (Connection t) s =
     Some (s\<lparr>sessions := sessions s @ [\<lparr>playerId = toString t, currentRoom = None\<rparr>]\<rparr>, [])"
| "step (Message c m e) s =
     (if c < length (sessions s) then on_message c m e s else Some (s, []))"
| "step (Close c e) s =
     (if c < length (sessions s) then Some (on_close c e s) else Some (s, []))"

fun run :: "event list \<Rightarrow> server \<Rightarrow> (server \<times> sends) option" where
  "run [] s = Some (s, [])"
| "run (ev # evs) s =
     (case step ev s of
        None \<Rightarrow> None
      | Some (s1, out1) \<Rightarrow>
          (case run evs s1 of None \<Rightarrow> None | Some (s2, out2) \<Rightarrow> Some (s2, out1 @ out2)))"

inductive reachable :: "server \<Rightarrow> bool" where
  reachable_init: "reachable init"
| reachable_step: "reachable s \<Longrightarrow> step ev s = Some (s', out) \<Longrightarrow> reachable s'"

subsection \<open>Notions used in the statements\<close>

text \<open>The host of the room is a member whose \<^verbatim>\<open>joinTime\<close> no member undercuts.\<close>

definition oldest_is_host :: "room \<Rightarrow> bool" where
  "oldest_is_host room \<longleftrightarrow>
     (\<exists>p\<in>set (map snd (players room)).
        host room = Some (id' p) \<and> (\<forall>q\<in>set (map snd (players room)). joinTime p \<le> joinTime q))"




subsection \<open>The invariant of the reachable states\<close>

text \<open>The entries of a room's \<^verbatim>\<open>players\<close> map: keys are distinct, every entry carries its
  key as \<^verbatim>\<open>id\<close>, and its socket belongs to a connection whose \<^verbatim>\<open>playerId\<close> is that
  key.\<close>

definition room_wf :: "session list \<Rightarrow> room \<Rightarrow> bool" where
  "room_wf ss r \<longleftrightarrow>
     distinct (map fst (players r)) \<and>
     (\<forall>m\<in>set (players r).
        id' (snd m) = fst m \<and> ws (snd m) < length ss \<and> playerId (ss ! ws (snd m)) = fst m)"

text \<open>A room has a member, and its host is the id of a member.\<close>

definition room_live :: "room \<Rightarrow> bool" where
  "room_live r \<longleftrightarrow> players r \<noteq> [] \<and> (\<exists>m\<in>set (players r). host r = Some (id' (snd m)))"

text \<open>Every registered room is allocated, is registered under its own code and is live.\<close>

definition registry_ok :: "server \<Rightarrow> bool" where
  "registry_ok s \<longleftrightarrow>
     (\<forall>cd a. rooms s cd = Some a \<longrightarrow>
        a < length (heap s) \<and> code (heap s ! a) = cd \<and> room_live (heap s ! a))"

text \<open>The registry is in order, every allocated room has well-formed entries, and every
  \<^verbatim>\<open>currentRoom\<close> points to an allocated room.\<close>

definition server_inv :: "server \<Rightarrow> bool" where
  "server_inv s \<longleftrightarrow>
     registry_ok s \<and>
     (\<forall>a<length (heap s). room_wf (sessions s) (heap s ! a)) \<and>
     (\<forall>c<length (sessions s). \<forall>a. currentRoom (sessions s ! c) = Some a \<longrightarrow> a < length (heap s))"

subsection \<open>Example states\<close>

text \<open>Environments: every socket open, and only socket 1 open.\<close>

definition env1 :: env where
  "env1 = \<lparr>now = 30, randoms = (\<lambda>_. 1 / 2), isOpen = (\<lambda>_. True)\<rparr>"



text \<open>One connection and no room; that connection after it has created a room; a room with two members and a third connection
  outside it, the same room after the game has started, and the same room with capacity 2.\<close>

definition lobby0 :: server where
  "lobby0 = \<lparr>heap = [], rooms = Map.empty, sessions = [\<lparr>playerId = ''10'', currentRoom = None\<rparr>]\<rparr>"

definition lobby1 :: server where
  "lobby1 = \<lparr>heap = [\<lparr>code = ''5500'', host = Some ''10'', maxPlayers = 5,
                      roles = RoleArray [\<lparr>name = role_win, count' = 3\<rparr>, \<lparr>name = role_blank, count' = 2\<rparr>],
                      players = [(''10'', \<lparr>id' = ''10'', ws = 0, joinTime = 30\<rparr>)],
                      gameStarted = False\<rparr>],
            rooms = [''5500'' \<mapsto> 0],
            sessions = [\<lparr>playerId = ''10'', currentRoom = Some 0\<rparr>]\<rparr>"

definition room2 :: room where
  "room2 = \<lparr>code = ''5500'', host = Some ''10'', maxPlayers = 5,
            roles = RoleArray [\<lparr>name = ''A'', count' = 1\<rparr>, \<lparr>name = ''B'', count' = 1\<rparr>],
            players = [(''10'', \<lparr>id' = ''10'', ws = 0, joinTime = 11\<rparr>),
                       (''20'', \<lparr>id' = ''20'', ws = 1, joinTime = 21\<rparr>)],
            gameStarted = False\<rparr>"

definition lobby2 :: server where
  "lobby2 = \<lparr>heap = [room2], rooms = [''5500'' \<mapsto> 0],
             sessions = [\<lparr>playerId = ''10'', currentRoom = Some 0\<rparr>,
                         \<lparr>playerId = ''20'', currentRoom = Some 0\<rparr>,
                         \<lparr>playerId = ''30'', currentRoom = None\<rparr>]\<rparr>"

definition lobby2_started :: server where
  "lobby2_started = lobby2\<lparr>heap := [room2\<lparr>gameStarted := True\<rparr>]\<rparr>"

definition lobby2_full :: server where
  "lobby2_full = lobby2\<lparr>heap := [room2\<lparr>maxPlayers := 2\<rparr>]\<rparr>"


section \<open>Role assignment\<close>

lemma randomIndex_less:
  assumes "0 \<le> r" "r < 1" "0 < n"
  shows "randomIndex r n < n"
proof -
  have "r * real n < real n" using assms by simp
  then have "\<lfloor>r * real n\<rfloor> < int n" by (simp add: floor_less_iff)
  moreover have "0 \<le> \<lfloor>r * real n\<rfloor>" using assms by simp
  ultimately show ?thesis unfolding randomIndex_def by linarith
qed

lemma mset_splice1:
  "i < length xs \<Longrightarrow> add_mset (xs ! i) (mset (splice1 i xs)) = mset xs"
proof -
  assume i: "i < length xs"
  have "xs = take i xs @ xs ! i # drop (Suc i) xs"
    using i by (simp add: id_take_nth_drop)
  then have "mset xs = mset (take i xs @ xs ! i # drop (Suc i) xs)" by simp
  then show ?thesis by (simp add: splice1_def)
qed

lemma length_splice1: "i < length xs \<Longrightarrow> length (splice1 i xs) = length xs - 1"
  by (simp add: splice1_def)

lemma splice1_Nil: "splice1 i [] = []"
  by (simp add: splice1_def)

lemma drawRoles_other:
  "p \<notin> set ps \<Longrightarrow> drawRoles ps rnd i pool asg p = asg p"
  by (induction ps arbitrary: i pool asg) (auto simp: Let_def)

lemma dom_drawRoles:
  "dom (drawRoles ps rnd i pool asg) = set ps \<union> dom asg"
  by (induction ps arbitrary: i pool asg) (auto simp: Let_def)

lemma count_allRoles_of: "count (mset (allRoles_of rs)) n = configured rs n"
  by (induction rs) (auto simp: configured_def)

lemma array_get_in: "i < length xs \<Longrightarrow> array_get xs i = Some (xs ! i)"
  by (simp add: array_get_def)

lemma array_get_Nil: "array_get [] i = None"
  by (simp add: array_get_def)

lemma dealt_Cons:
  "dealt asg (p # ps) = add_mset (assignments_get asg p) (dealt asg ps)"
  by (simp add: dealt_def)

lemma drawRoles_sufficient:
  assumes "random_ok rnd" "distinct ps" "length ps \<le> length pool"
  shows "(\<forall>p\<in>set ps. \<exists>l. drawRoles ps rnd i pool asg p = Some (Some l)) \<and>
         dealt (drawRoles ps rnd i pool asg) ps \<subseteq># image_mset Some (mset pool)"
  using assms
proof (induction ps arbitrary: i pool asg)
  case Nil
  then show ?case by (simp add: dealt_def)
next
  case (Cons p ps)
  define idx where "idx = randomIndex (rnd i) (length pool)"
  define pool' where "pool' = splice1 idx pool"
  define asg' where "asg' = asg(p \<mapsto> array_get pool idx)"
  have pos: "0 < length pool" using Cons.prems(3) by (cases pool) simp_all
  have idx: "idx < length pool"
    unfolding idx_def using Cons.prems(1) pos by (simp add: random_ok_def randomIndex_less)
  have res: "drawRoles (p # ps) rnd i pool asg = drawRoles ps rnd (Suc i) pool' asg'"
    by (simp add: idx_def pool'_def asg'_def Let_def)
  have len: "length ps \<le> length pool'"
    using Cons.prems idx by (simp add: pool'_def length_splice1)
  have d: "distinct ps" and pn: "p \<notin> set ps" using Cons.prems by simp_all
  note IH = Cons.IH [OF Cons.prems(1) d len, of "Suc i" asg']
  have atp: "drawRoles ps rnd (Suc i) pool' asg' p = Some (Some (pool ! idx))"
    using pn idx by (simp add: drawRoles_other asg'_def array_get_in)
  have "dealt (drawRoles ps rnd (Suc i) pool' asg') (p # ps)
        = add_mset (Some (pool ! idx)) (dealt (drawRoles ps rnd (Suc i) pool' asg') ps)"
    by (simp add: dealt_Cons assignments_get_def atp)
  also have "\<dots> \<subseteq># add_mset (Some (pool ! idx)) (image_mset Some (mset pool'))"
    using IH by simp
  also have "\<dots> = image_mset Some (mset pool)"
    using mset_splice1 [OF idx] by (simp add: pool'_def flip: image_mset_add_mset)
  finally have sub: "dealt (drawRoles (p # ps) rnd i pool asg) (p # ps) \<subseteq># image_mset Some (mset pool)"
    by (simp only: res)
  have "\<forall>q\<in>set (p # ps). \<exists>l. drawRoles (p # ps) rnd i pool asg q = Some (Some l)"
    unfolding res using IH atp by auto
  with sub show ?case by blast
qed

lemma length_allRoles_of: "length (allRoles_of rs) = sum_list (map count' rs)"
  by (induction rs) auto

lemma count_image_Some: "count (image_mset Some M) (Some x) = count M x"
  by (induction M) auto

lemma configured_absent: "n \<notin> name ` set rs \<Longrightarrow> configured rs n = 0"
  by (induction rs) (auto simp: configured_def)

lemma configured_distinct:
  "distinct (map name rs) \<Longrightarrow> r \<in> set rs \<Longrightarrow> configured rs (name r) = count' r"
proof (induction rs)
  case Nil
  then show ?case by simp
next
  case (Cons x rs)
  show ?case
  proof (cases "r = x")
    case True
    have "name x \<notin> name ` set rs" using Cons.prems(1) by simp
    then have "configured rs (name x) = 0" by (rule configured_absent)
    then show ?thesis using True by (simp add: configured_def)
  next
    case False
    then have r: "r \<in> set rs" using Cons.prems(2) by simp
    then have "name x \<noteq> name r" using Cons.prems(1) by auto
    moreover have "configured rs (name r) = count' r" using Cons.IH Cons.prems(1) r by simp
    ultimately show ?thesis by (simp add: configured_def)
  qed
qed

text \<open>
  Claim C1. When the role pool's total count is at least the number of players, the role
  assignment of startGame returns a map whose keys are exactly the players, every player
  holds a label, the labels handed out are drawn without replacement from the flat pool
  (they form a sub-multiset of it), and no label is handed out more often than the pool
  configures it: than the counts of the entries with that name add up to, which is the
  entry's own count when the names of the pool are distinct. The players are the keys of a
  Map, hence distinct.
\<close>

theorem assignRoles_sufficient:
  assumes "random_ok rnd" and "distinct ps" and "length ps \<le> sum_list (map count' rs)"
  shows "dom (assignRoles ps rs rnd) = set ps \<and>
         (\<forall>p\<in>set ps. \<exists>l. assignRoles ps rs rnd p = Some (Some l)) \<and>
         dealt (assignRoles ps rs rnd) ps \<subseteq># image_mset Some (mset (allRoles_of rs)) \<and>
         (\<forall>n. count (dealt (assignRoles ps rs rnd) ps) (Some n) \<le> configured rs n) \<and>
         (distinct (map name rs) \<longrightarrow>
            (\<forall>r\<in>set rs. count (dealt (assignRoles ps rs rnd) ps) (Some (name r)) \<le> count' r))"
proof -
  have len: "length ps \<le> length (allRoles_of rs)"
    using assms(3) by (simp add: length_allRoles_of)
  note D = drawRoles_sufficient [OF assms(1,2) len, of 0 Map.empty]
  have sub: "dealt (assignRoles ps rs rnd) ps \<subseteq># image_mset Some (mset (allRoles_of rs))"
    using D by (simp add: assignRoles_def)
  have cnt: "count (dealt (assignRoles ps rs rnd) ps) (Some n) \<le> configured rs n" for n
  proof -
    have "count (dealt (assignRoles ps rs rnd) ps) (Some n)
          \<le> count (image_mset Some (mset (allRoles_of rs))) (Some n)"
      using sub by (rule mset_subset_eq_count)
    then show ?thesis by (simp add: count_image_Some count_allRoles_of)
  qed
  have ent: "count (dealt (assignRoles ps rs rnd) ps) (Some (name r)) \<le> count' r"
    if "distinct (map name rs)" "r \<in> set rs" for r
    using cnt [of "name r"] configured_distinct [OF that] by simp
  have dm: "dom (assignRoles ps rs rnd) = set ps"
    by (simp add: assignRoles_def dom_drawRoles)
  have lab: "\<forall>p\<in>set ps. \<exists>l. assignRoles ps rs rnd p = Some (Some l)"
    using D by (simp add: assignRoles_def)
  from dm lab sub cnt ent show ?thesis by blast
qed

theorem assignRoles_sufficient_witness:
  "random_ok (\<lambda>_. 1 / 2) \<and> distinct [''1'', ''2''] \<and>
   length [''1'', ''2''] \<le> sum_list (map count' [\<lparr>name = ''A'', count' = 1\<rparr>, \<lparr>name = ''B'', count' = 1\<rparr>]) \<and>
   distinct (map name [\<lparr>name = ''A'', count' = 1\<rparr>, \<lparr>name = ''B'', count' = 1\<rparr>]) \<and>
   assignRoles [''1'', ''2''] [\<lparr>name = ''A'', count' = 1\<rparr>, \<lparr>name = ''B'', count' = 1\<rparr>] (\<lambda>_. 1 / 2) ''1'' = Some (Some ''B'') \<and>
   assignRoles [''1'', ''2''] [\<lparr>name = ''A'', count' = 1\<rparr>, \<lparr>name = ''B'', count' = 1\<rparr>] (\<lambda>_. 1 / 2) ''2'' = Some (Some ''A'') \<and>
   dom (assignRoles [''1'', ''2''] [\<lparr>name = ''A'', count' = 1\<rparr>, \<lparr>name = ''B'', count' = 1\<rparr>] (\<lambda>_. 1 / 2)) = {''1'', ''2''} \<and>
   count (dealt (assignRoles [''1'', ''2''] [\<lparr>name = ''A'', count' = 1\<rparr>, \<lparr>name = ''B'', count' = 1\<rparr>] (\<lambda>_. 1 / 2)) [''1'', ''2'']) (Some ''A'') \<le> 1 \<and>
   (\<forall>n. count (dealt (assignRoles [''1'', ''2''] [\<lparr>name = ''A'', count' = 1\<rparr>, \<lparr>name = ''B'', count' = 1\<rparr>] (\<lambda>_. 1 / 2)) [''1'', ''2'']) (Some n)
        \<le> configured [\<lparr>name = ''A'', count' = 1\<rparr>, \<lparr>name = ''B'', count' = 1\<rparr>] n)"
proof -
  let ?rs = "[\<lparr>name = ''A'', count' = 1\<rparr>, \<lparr>name = ''B'', count' = 1\<rparr>]"
  have h1: "random_ok (\<lambda>_. 1 / 2)" by (simp add: random_ok_def)
  have h2: "distinct [''1'', ''2'']" by simp
  have h3: "length [''1'', ''2''] \<le> sum_list (map count' ?rs)" by simp
  have h4: "distinct (map name ?rs)" by simp
  have v1: "assignRoles [''1'', ''2''] ?rs (\<lambda>_. 1 / 2) ''1'' = Some (Some ''B'')"
    by (simp add: assignRoles_def randomIndex_def splice1_def array_get_def)
  have v2: "assignRoles [''1'', ''2''] ?rs (\<lambda>_. 1 / 2) ''2'' = Some (Some ''A'')"
    by (simp add: assignRoles_def randomIndex_def splice1_def array_get_def)
  note T = assignRoles_sufficient [OF h1 h2 h3]
  from T have d: "dom (assignRoles [''1'', ''2''] ?rs (\<lambda>_. 1 / 2)) = {''1'', ''2''}" by simp
  from T h4 have "\<forall>r\<in>set ?rs. count (dealt (assignRoles [''1'', ''2''] ?rs (\<lambda>_. 1 / 2)) [''1'', ''2''])
      (Some (name r)) \<le> count' r"
    by blast
  then have a: "count (dealt (assignRoles [''1'', ''2''] ?rs (\<lambda>_. 1 / 2)) [''1'', ''2'']) (Some ''A'') \<le> 1"
    by simp
  from T have c: "\<forall>n. count (dealt (assignRoles [''1'', ''2''] ?rs (\<lambda>_. 1 / 2)) [''1'', ''2'']) (Some n)
      \<le> configured ?rs n"
    by blast
  from h1 h2 h3 h4 v1 v2 d a c show ?thesis by blast
qed

lemma drawRoles_empty:
  "p \<in> set ps \<Longrightarrow> distinct ps \<Longrightarrow> drawRoles ps rnd i [] asg p = Some None"
proof (induction ps arbitrary: i asg)
  case Nil
  then show ?case by simp
next
  case (Cons q ps)
  show ?case
  proof (cases "p = q")
    case True
    then show ?thesis using Cons.prems
      by (simp add: Let_def splice1_Nil array_get_Nil drawRoles_other)
  next
    case False
    then show ?thesis using Cons
      by (simp add: Let_def splice1_Nil)
  qed
qed

lemma drawRoles_insufficient:
  assumes "random_ok rnd" "distinct ps" "length pool \<le> length ps"
  shows "dealt (drawRoles ps rnd i pool asg) (take (length pool) ps) = image_mset Some (mset pool) \<and>
         (\<forall>p\<in>set (drop (length pool) ps). drawRoles ps rnd i pool asg p = Some None)"
  using assms
proof (induction ps arbitrary: i pool asg)
  case Nil
  then show ?case by (simp add: dealt_def)
next
  case (Cons p ps)
  show ?case
  proof (cases "pool = []")
    case True
    have "\<forall>q\<in>set (p # ps). drawRoles (p # ps) rnd i [] asg q = Some None"
      using drawRoles_empty [OF _ Cons.prems(2)] by blast
    then show ?thesis unfolding True by (simp add: dealt_def del: drawRoles.simps)
  next
    case False
    define idx where "idx = randomIndex (rnd i) (length pool)"
    define pool' where "pool' = splice1 idx pool"
    define asg' where "asg' = asg(p \<mapsto> array_get pool idx)"
    have pos: "0 < length pool" using False by simp
    have idx: "idx < length pool"
      unfolding idx_def using Cons.prems(1) pos by (simp add: random_ok_def randomIndex_less)
    have res: "drawRoles (p # ps) rnd i pool asg = drawRoles ps rnd (Suc i) pool' asg'"
      by (simp add: idx_def pool'_def asg'_def Let_def)
    have len': "length pool = Suc (length pool')"
      using idx by (simp add: pool'_def length_splice1)
    have len: "length pool' \<le> length ps"
      using Cons.prems len' by simp
    have d: "distinct ps" and pn: "p \<notin> set ps" using Cons.prems by simp_all
    note IH = Cons.IH [OF Cons.prems(1) d len, of "Suc i" asg']
    have atp: "drawRoles ps rnd (Suc i) pool' asg' p = Some (Some (pool ! idx))"
      using pn idx by (simp add: drawRoles_other asg'_def array_get_in)
    have "dealt (drawRoles ps rnd (Suc i) pool' asg') (take (length pool) (p # ps))
          = add_mset (Some (pool ! idx)) (dealt (drawRoles ps rnd (Suc i) pool' asg') (take (length pool') ps))"
      by (simp add: len' dealt_Cons assignments_get_def atp)
    also have "\<dots> = add_mset (Some (pool ! idx)) (image_mset Some (mset pool'))"
      using IH by simp
    also have "\<dots> = image_mset Some (mset pool)"
      using mset_splice1 [OF idx] by (simp add: pool'_def flip: image_mset_add_mset)
    finally have A: "dealt (drawRoles (p # ps) rnd i pool asg) (take (length pool) (p # ps))
                     = image_mset Some (mset pool)"
      by (simp only: res)
    have "\<forall>q\<in>set (drop (length pool) (p # ps)). drawRoles (p # ps) rnd i pool asg q = Some None"
      unfolding res using IH by (simp add: len')
    with A show ?thesis by blast
  qed
qed

text \<open>
  Claim C2, as the code has it. When the role pool's total count \<open>T\<close> is less than the
  number of players, the assignment raises nothing: it returns a map whose keys are exactly
  the players, the first \<open>T\<close> players in iteration order hold exactly the labels of the
  flat pool and every later player holds \<^verbatim>\<open>undefined\<close>.
\<close>

theorem assignRoles_insufficient:
  assumes "random_ok rnd" and "distinct ps" and "sum_list (map count' rs) < length ps"
  shows "dom (assignRoles ps rs rnd) = set ps \<and>
         dealt (assignRoles ps rs rnd) (take (sum_list (map count' rs)) ps)
           = image_mset Some (mset (allRoles_of rs)) \<and>
         (\<forall>p\<in>set (drop (sum_list (map count' rs)) ps). assignRoles ps rs rnd p = Some None)"
proof -
  have len: "length (allRoles_of rs) \<le> length ps"
    using assms(3) by (simp add: length_allRoles_of)
  show ?thesis
    using drawRoles_insufficient [OF assms(1,2) len, of 0 Map.empty]
    by (simp add: assignRoles_def dom_drawRoles length_allRoles_of)
qed

text \<open>
  With the pool \<^verbatim>\<open>[{name: "A", count: 1}]\<close> and two players the first player is handed
  the label and the second \<^verbatim>\<open>undefined\<close>: a partial result, and no error.
\<close>

theorem assignRoles_insufficient_counterexample:
  "sum_list (map count' [\<lparr>name = ''A'', count' = 1\<rparr>]) < length [''1'', ''2''] \<and>
   assignRoles [''1'', ''2''] [\<lparr>name = ''A'', count' = 1\<rparr>] (\<lambda>_. 0) ''1'' = Some (Some ''A'') \<and>
   assignRoles [''1'', ''2''] [\<lparr>name = ''A'', count' = 1\<rparr>] (\<lambda>_. 0) ''2'' = Some None"
  by (simp add: assignRoles_def randomIndex_def splice1_def array_get_def)

theorem assignRoles_insufficient_witness:
  "random_ok (\<lambda>_. 0) \<and> distinct [''1'', ''2''] \<and>
   sum_list (map count' [\<lparr>name = ''A'', count' = 1\<rparr>]) < length [''1'', ''2''] \<and>
   dom (assignRoles [''1'', ''2''] [\<lparr>name = ''A'', count' = 1\<rparr>] (\<lambda>_. 0)) = {''1'', ''2''} \<and>
   dealt (assignRoles [''1'', ''2''] [\<lparr>name = ''A'', count' = 1\<rparr>] (\<lambda>_. 0)) [''1''] = {#Some ''A''#} \<and>
   assignRoles [''1'', ''2''] [\<lparr>name = ''A'', count' = 1\<rparr>] (\<lambda>_. 0) ''2'' = Some None"
proof -
  have h1: "random_ok (\<lambda>_. 0)" by (simp add: random_ok_def)
  have h2: "distinct [''1'', ''2'']" by simp
  have h3: "sum_list (map count' [\<lparr>name = ''A'', count' = 1\<rparr>]) < length [''1'', ''2'']"
    by simp
  show ?thesis
    using h1 h2 h3 assignRoles_insufficient [OF h1 h2 h3] by simp
qed

section \<open>Host succession\<close>

lemma oldestPlayer_Some:
  assumes "ps \<noteq> []"
  shows "\<exists>p. oldestPlayer ps = Some p \<and> p \<in> set (map snd ps) \<and>
             (\<forall>q\<in>set (map snd ps). joinTime p \<le> joinTime q)"
proof -
  define ys where "ys = sort_key joinTime (map snd ps)"
  have ne: "ys \<noteq> []" using assms by (auto simp: ys_def dest: arg_cong [where f = length])
  then obtain y ys' where ys: "ys = y # ys'" by (cases ys) auto
  have srt: "sorted (map joinTime ys)" by (simp add: ys_def)
  have st: "set ys = set (map snd ps)" by (simp add: ys_def)
  have "oldestPlayer ps = Some y"
    using ys by (simp add: oldestPlayer_def array_get_def flip: ys_def)
  moreover have "y \<in> set (map snd ps)" using st ys by auto
  moreover have "\<forall>q\<in>set (map snd ps). joinTime y \<le> joinTime q"
    using srt st ys by auto
  ultimately show ?thesis by blast
qed

lemma removePlayer_players: "players (removePlayer pid room) = map_delete pid (players room)"
  by (simp add: removePlayer_def Let_def split: option.splits)

lemma removePlayer_host:
  assumes "host room = Some pid" and "players (removePlayer pid room) \<noteq> []"
  shows "oldest_is_host (removePlayer pid room)"
proof -
  have ne: "map_delete pid (players room) \<noteq> []"
    using assms(2) by (simp add: removePlayer_players)
  from oldestPlayer_Some [OF ne] obtain p where
    p: "oldestPlayer (map_delete pid (players room)) = Some p"
       "p \<in> set (map snd (map_delete pid (players room)))"
       "\<forall>q\<in>set (map snd (map_delete pid (players room))). joinTime p \<le> joinTime q"
    by blast
  have "removePlayer pid room = room\<lparr>players := map_delete pid (players room), host := Some (id' p)\<rparr>"
    using assms(1) ne p(1) by (simp add: removePlayer_def Let_def)
  then show ?thesis
    using p(2,3) unfolding oldest_is_host_def by (auto simp del: set_map)
qed

text \<open>
  Claim C4. When the departing player is the host and the room still has a member after
  the leaveRoom case or the close handler, the host then is a remaining member whose
  \<^verbatim>\<open>joinTime\<close> is at most that of every remaining member.
\<close>

theorem host_succession_oldest:
  assumes "c < length (sessions s)" and "currentRoom (sessions s ! c) = Some a"
    and "a < length (heap s)"
    and "host (heap s ! a) = Some (playerId (sessions s ! c))"
  shows "(players (heap (fst (leaveRoom_case c e s)) ! a) \<noteq> [] \<longrightarrow>
            oldest_is_host (heap (fst (leaveRoom_case c e s)) ! a)) \<and>
         (players (heap (fst (on_close c e s)) ! a) \<noteq> [] \<longrightarrow>
            oldest_is_host (heap (fst (on_close c e s)) ! a))"
proof -
  let ?r = "removePlayer (playerId (sessions s ! c)) (heap s ! a)"
  have L: "heap (fst (leaveRoom_case c e s)) ! a = ?r"
    using assms by (simp add: leaveRoom_case_def Let_def set_currentRoom_def)
  have C: "heap (fst (on_close c e s)) ! a = ?r"
    using assms by (simp add: on_close_def Let_def)
  show ?thesis
    unfolding L C using removePlayer_host [OF assms(4)] by blast
qed

theorem host_succession_oldest_witness:
  "0 < length (sessions lobby2) \<and>
   currentRoom (sessions lobby2 ! 0) = Some 0 \<and> 0 < length (heap lobby2) \<and>
   host (heap lobby2 ! 0) = Some (playerId (sessions lobby2 ! 0)) \<and>
   players (heap (fst (leaveRoom_case 0 env1 lobby2)) ! 0) \<noteq> [] \<and>
   players (heap (fst (on_close 0 env1 lobby2)) ! 0) \<noteq> [] \<and>
   oldest_is_host (heap (fst (leaveRoom_case 0 env1 lobby2)) ! 0) \<and>
   oldest_is_host (heap (fst (on_close 0 env1 lobby2)) ! 0) \<and>
   host (heap (fst (leaveRoom_case 0 env1 lobby2)) ! 0) = Some ''20''"
proof -
  have h1: "0 < length (sessions lobby2)"
    and h2: "currentRoom (sessions lobby2 ! 0) = Some 0"
    and h3: "0 < length (heap lobby2)"
    and h4: "host (heap lobby2 ! 0) = Some (playerId (sessions lobby2 ! 0))"
    by (simp_all add: lobby2_def room2_def)
  have n1: "players (heap (fst (leaveRoom_case 0 env1 lobby2)) ! 0) \<noteq> []"
    and n2: "players (heap (fst (on_close 0 env1 lobby2)) ! 0) \<noteq> []"
    and n3: "host (heap (fst (leaveRoom_case 0 env1 lobby2)) ! 0) = Some ''20''"
    by (simp_all add: lobby2_def room2_def leaveRoom_case_def on_close_def removePlayer_def
        oldestPlayer_def array_get_def Let_def set_currentRoom_def)
  show ?thesis
    using h1 h2 h3 h4 n1 n2 n3 host_succession_oldest [OF h1 h2 h3 h4, of env1]
    by blast
qed

section \<open>Room codes and room creation\<close>

lemma generateRoomCode_result:
  assumes "generateRoomCode rms rnd i = Some cd"
  shows "rms cd = None \<and> (\<exists>j\<ge>i. cd = toString (nat \<lfloor>1000 + rnd j * 9000\<rfloor>))"
proof (rule generateRoomCode.raw_induct
    [where P = "\<lambda>rms rnd i cd. rms cd = None \<and> (\<exists>j\<ge>i. cd = toString (nat \<lfloor>1000 + rnd j * 9000\<rfloor>))",
     OF _ assms])
  fix gen :: "(string \<rightharpoonup> addr) \<Rightarrow> (nat \<Rightarrow> real) \<Rightarrow> nat \<Rightarrow> string option"
  fix rms rnd i cd
  assume IH: "\<And>rms rnd i cd. gen rms rnd i = Some cd \<Longrightarrow>
                rms cd = None \<and> (\<exists>j\<ge>i. cd = toString (nat \<lfloor>1000 + rnd j * 9000\<rfloor>))"
    and eq: "(if rms (toString (nat \<lfloor>1000 + rnd i * 9000\<rfloor>)) \<noteq> None
              then gen rms rnd (Suc i)
              else Some (toString (nat \<lfloor>1000 + rnd i * 9000\<rfloor>))) = Some cd"
  show "rms cd = None \<and> (\<exists>j\<ge>i. cd = toString (nat \<lfloor>1000 + rnd j * 9000\<rfloor>))"
  proof (cases "rms (toString (nat \<lfloor>1000 + rnd i * 9000\<rfloor>)) = None")
    case True
    then show ?thesis using eq by auto
  next
    case False
    then have "gen rms rnd (Suc i) = Some cd" using eq by simp
    from IH [OF this] show ?thesis using Suc_leD by blast
  qed
qed

text \<open>The loop returns as soon as a draw gives a free code.\<close>

lemma generateRoomCode_returns:
  assumes "rms (toString (nat \<lfloor>1000 + rnd (i + k) * 9000\<rfloor>)) = None"
  shows "\<exists>cd. generateRoomCode rms rnd i = Some cd"
  using assms
proof (induction k arbitrary: i)
  case 0
  then show ?case by (subst generateRoomCode.simps) simp
next
  case (Suc k)
  then have "\<exists>cd. generateRoomCode rms rnd (Suc i) = Some cd" by simp
  then show ?case by (subst generateRoomCode.simps) simp
qed

lemma toString_5500: "toString 5500 = ''5500''"
  by (simp add: toString.simps digit_char_def)

lemma gen_ex: "generateRoomCode Map.empty (\<lambda>_. 1 / 2) 0 = Some ''5500''"
  by (subst generateRoomCode.simps) (simp add: toString_5500)

text \<open>
  Claim C10. A room built by createRoom has capacity 5, the role pool of three winning
  and two blank labels, no player, no host and has not started; the createRoom case then
  registers it under a fresh code with the creator as host and only member.
\<close>

theorem createRoom_defaults:
  assumes "createRoom_case c e s = Some (s', out)"
  shows "maxPlayers (createRoom roomCode) = 5 \<and>
         roles (createRoom roomCode) = RoleArray [\<lparr>name = role_win, count' = 3\<rparr>, \<lparr>name = role_blank, count' = 2\<rparr>] \<and>
         gameStarted (createRoom roomCode) = False \<and>
         players (createRoom roomCode) = [] \<and>
         host (createRoom roomCode) = None \<and>
         code (createRoom roomCode) = roomCode \<and>
         (\<exists>newCode. rooms s newCode = None \<and>
            rooms s' = (rooms s)(newCode \<mapsto> length (heap s)) \<and>
            heap s' = heap s @
              [\<lparr>code = newCode, host = Some (playerId (sessions s ! c)), maxPlayers = 5,
                roles = RoleArray [\<lparr>name = role_win, count' = 3\<rparr>, \<lparr>name = role_blank, count' = 2\<rparr>],
                players = [(playerId (sessions s ! c),
                            \<lparr>id' = playerId (sessions s ! c), ws = c, joinTime = now e\<rparr>)],
                gameStarted = False\<rparr>])"
proof -
  from assms obtain newCode where g: "generateRoomCode (rooms s) (randoms e) 0 = Some newCode"
    by (auto simp: createRoom_case_def split: option.splits)
  have fresh: "rooms s newCode = None"
    using generateRoomCode_result [OF g] by simp
  have "rooms s' = (rooms s)(newCode \<mapsto> length (heap s))"
    using assms g by (auto simp: createRoom_case_def Let_def set_currentRoom_def)
  moreover have "heap s' = heap s @
      [\<lparr>code = newCode, host = Some (playerId (sessions s ! c)), maxPlayers = 5,
        roles = RoleArray [\<lparr>name = role_win, count' = 3\<rparr>, \<lparr>name = role_blank, count' = 2\<rparr>],
        players = [(playerId (sessions s ! c),
                    \<lparr>id' = playerId (sessions s ! c), ws = c, joinTime = now e\<rparr>)],
        gameStarted = False\<rparr>]"
    using assms g by (auto simp: createRoom_case_def Let_def set_currentRoom_def createRoom_def)
  ultimately show ?thesis using fresh by (simp add: createRoom_def)
qed

lemma createRoom_case_lobby0:
  "createRoom_case 0 env1 lobby0 =
     Some (\<lparr>heap = [\<lparr>code = ''5500'', host = Some ''10'', maxPlayers = 5,
                      roles = RoleArray [\<lparr>name = role_win, count' = 3\<rparr>, \<lparr>name = role_blank, count' = 2\<rparr>],
                      players = [(''10'', \<lparr>id' = ''10'', ws = 0, joinTime = 30\<rparr>)],
                      gameStarted = False\<rparr>],
            rooms = [''5500'' \<mapsto> 0],
            sessions = [\<lparr>playerId = ''10'', currentRoom = Some 0\<rparr>]\<rparr>,
           [(0, RoomCreated ''5500'' ''10'' True),
            (0, GameState ''5500'' 5 (RoleArray [\<lparr>name = role_win, count' = 3\<rparr>, \<lparr>name = role_blank, count' = 2\<rparr>])
                  1 False (Some ''10'') True)])"
  by (simp add: createRoom_case_def lobby0_def env1_def gen_ex createRoom_def set_currentRoom_def Let_def
      broadcastGameState_def)

theorem createRoom_defaults_witness:
  "createRoom_case 0 env1 lobby0 =
     Some (\<lparr>heap = [\<lparr>code = ''5500'', host = Some ''10'', maxPlayers = 5,
                      roles = RoleArray [\<lparr>name = role_win, count' = 3\<rparr>, \<lparr>name = role_blank, count' = 2\<rparr>],
                      players = [(''10'', \<lparr>id' = ''10'', ws = 0, joinTime = 30\<rparr>)],
                      gameStarted = False\<rparr>],
            rooms = [''5500'' \<mapsto> 0],
            sessions = [\<lparr>playerId = ''10'', currentRoom = Some 0\<rparr>]\<rparr>,
           [(0, RoomCreated ''5500'' ''10'' True),
            (0, GameState ''5500'' 5 (RoleArray [\<lparr>name = role_win, count' = 3\<rparr>, \<lparr>name = role_blank, count' = 2\<rparr>])
                  1 False (Some ''10'') True)]) \<and>
   maxPlayers (createRoom ''5500'') = 5 \<and>
   roles (createRoom ''5500'') = RoleArray [\<lparr>name = role_win, count' = 3\<rparr>, \<lparr>name = role_blank, count' = 2\<rparr>] \<and>
   gameStarted (createRoom ''5500'') = False \<and>
   players (createRoom ''5500'') = [] \<and>
   (\<exists>newCode. rooms lobby0 newCode = None \<and> newCode = ''5500'')"
  using createRoom_defaults [OF createRoom_case_lobby0, of "''5500''"] createRoom_case_lobby0
  by (auto simp: lobby0_def)

section \<open>Joining\<close>

lemma map_of_map_set: "map_of (map_set k v xs) k = Some v"
  by (induction xs) auto

lemma map_of_map_set_other: "k' \<noteq> k \<Longrightarrow> map_of (map_set k v xs) k' = map_of xs k'"
  by (induction xs) auto

text \<open>
  Claim C5. A joinRoom request is answered with the room-not-found error when the code is
  not registered, else with the game-already-started error when the room has started, else
  with the room-full error when the room holds at least \<^verbatim>\<open>maxPlayers\<close> members; in these
  three cases the server state is unchanged and the error reply to the sender is the only
  message sent. Otherwise the player is stored under its id with the current clock value
  as \<^verbatim>\<open>joinTime\<close>.
\<close>

theorem joinRoom_case_spec:
  "(rooms s roomCode = None \<longrightarrow>
      joinRoom_case c roomCode e s = (s, [(c, ErrorMsg RoomNotFound)])) \<and>
   (\<forall>a. rooms s roomCode = Some a \<longrightarrow>
      (gameStarted (heap s ! a) \<longrightarrow>
         joinRoom_case c roomCode e s = (s, [(c, ErrorMsg GameAlreadyStarted)])) \<and>
      (\<not> gameStarted (heap s ! a) \<and> maxPlayers (heap s ! a) \<le> int (length (players (heap s ! a))) \<longrightarrow>
         joinRoom_case c roomCode e s = (s, [(c, ErrorMsg RoomFull)])) \<and>
      (\<not> gameStarted (heap s ! a) \<and> int (length (players (heap s ! a))) < maxPlayers (heap s ! a) \<and>
       a < length (heap s) \<and> c < length (sessions s) \<longrightarrow>
         (\<exists>s' out. joinRoom_case c roomCode e s = (s', out) \<and>
            players (heap s' ! a) =
              map_set (playerId (sessions s ! c))
                \<lparr>id' = playerId (sessions s ! c), ws = c, joinTime = now e\<rparr> (players (heap s ! a)) \<and>
            map_of (players (heap s' ! a)) (playerId (sessions s ! c)) =
              Some \<lparr>id' = playerId (sessions s ! c), ws = c, joinTime = now e\<rparr> \<and>
            (\<forall>p. p \<noteq> playerId (sessions s ! c) \<longrightarrow>
                 map_of (players (heap s' ! a)) p = map_of (players (heap s ! a)) p) \<and>
            currentRoom (sessions s' ! c) = Some a \<and>
            rooms s' = rooms s)))"
  by (auto simp: joinRoom_case_def Let_def set_currentRoom_def map_of_map_set map_of_map_set_other)

theorem joinRoom_case_spec_witness:
  "joinRoom_case 2 ''9999'' env1 lobby2 = (lobby2, [(2, ErrorMsg RoomNotFound)]) \<and>
   joinRoom_case 2 ''5500'' env1 lobby2_started = (lobby2_started, [(2, ErrorMsg GameAlreadyStarted)]) \<and>
   joinRoom_case 2 ''5500'' env1 lobby2_full = (lobby2_full, [(2, ErrorMsg RoomFull)]) \<and>
   (\<exists>s' out. joinRoom_case 2 ''5500'' env1 lobby2 = (s', out) \<and>
      players (heap s' ! 0) =
        [(''10'', \<lparr>id' = ''10'', ws = 0, joinTime = 11\<rparr>),
         (''20'', \<lparr>id' = ''20'', ws = 1, joinTime = 21\<rparr>),
         (''30'', \<lparr>id' = ''30'', ws = 2, joinTime = 30\<rparr>)] \<and>
      currentRoom (sessions s' ! 2) = Some 0)"
proof -
  have a: "rooms lobby2 ''9999'' = None" by (simp add: lobby2_def)
  have b: "rooms lobby2_started ''5500'' = Some 0" "gameStarted (heap lobby2_started ! 0)"
    by (simp_all add: lobby2_started_def lobby2_def)
  have c: "rooms lobby2_full ''5500'' = Some 0"
    "\<not> gameStarted (heap lobby2_full ! 0) \<and>
     maxPlayers (heap lobby2_full ! 0) \<le> int (length (players (heap lobby2_full ! 0)))"
    by (simp_all add: lobby2_full_def lobby2_def room2_def)
  have d: "rooms lobby2 ''5500'' = Some 0"
    "\<not> gameStarted (heap lobby2 ! 0) \<and>
     int (length (players (heap lobby2 ! 0))) < maxPlayers (heap lobby2 ! 0) \<and>
     0 < length (heap lobby2) \<and> 2 < length (sessions lobby2)"
    by (simp_all add: lobby2_def room2_def)
  have A: "joinRoom_case 2 ''9999'' env1 lobby2 = (lobby2, [(2, ErrorMsg RoomNotFound)])"
    using joinRoom_case_spec [of lobby2 "''9999''" 2 env1] a by blast
  have B: "joinRoom_case 2 ''5500'' env1 lobby2_started = (lobby2_started, [(2, ErrorMsg GameAlreadyStarted)])"
    using joinRoom_case_spec [of lobby2_started "''5500''" 2 env1] b by blast
  have C: "joinRoom_case 2 ''5500'' env1 lobby2_full = (lobby2_full, [(2, ErrorMsg RoomFull)])"
    using joinRoom_case_spec [of lobby2_full "''5500''" 2 env1] c by blast
  have "\<exists>s' out. joinRoom_case 2 ''5500'' env1 lobby2 = (s', out) \<and>
      players (heap s' ! 0) =
        map_set (playerId (sessions lobby2 ! 2))
          \<lparr>id' = playerId (sessions lobby2 ! 2), ws = 2, joinTime = now env1\<rparr> (players (heap lobby2 ! 0)) \<and>
      currentRoom (sessions s' ! 2) = Some 0"
    using joinRoom_case_spec [of lobby2 "''5500''" 2 env1] d by blast
  then have D: "\<exists>s' out. joinRoom_case 2 ''5500'' env1 lobby2 = (s', out) \<and>
      players (heap s' ! 0) =
        [(''10'', \<lparr>id' = ''10'', ws = 0, joinTime = 11\<rparr>),
         (''20'', \<lparr>id' = ''20'', ws = 1, joinTime = 21\<rparr>),
         (''30'', \<lparr>id' = ''30'', ws = 2, joinTime = 30\<rparr>)] \<and>
      currentRoom (sessions s' ! 2) = Some 0"
    by (simp add: lobby2_def room2_def env1_def)
  from A B C D show ?thesis by blast
qed

section \<open>Settings\<close>

text \<open>
  The room of \<open>lobby2_started\<close> has started; the host's updateSettings request still
  replaces its capacity and its role pool.
\<close>

theorem updateSettings_after_start_counterexample:
  "gameStarted (heap lobby2_started ! 0) \<and>
   maxPlayers (heap lobby2_started ! 0) = 5 \<and>
   maxPlayers (heap (fst (updateSettings_case 0 (Some ''10'') 8 (RoleArray []) env1 lobby2_started)) ! 0) = 8 \<and>
   roles (heap (fst (updateSettings_case 0 (Some ''10'') 8 (RoleArray []) env1 lobby2_started)) ! 0) = RoleArray []"
  by (simp add: updateSettings_case_def lobby2_started_def lobby2_def room2_def Let_def)

text \<open>
  Claim C7, as the code has it. updateSettings changes nothing and sends nothing when the
  sender's session is in no room, and when the \<^verbatim>\<open>playerId\<close> of the message differs from
  the host of the sender's room. When they agree, capacity and role pool are replaced by
  the values of the message, nothing else in the state changes and the room is broadcast,
  whatever \<^verbatim>\<open>gameStarted\<close> is, and \<^verbatim>\<open>gameStarted\<close> keeps its value.
\<close>

theorem updateSettings_case_spec:
  "(currentRoom (sessions s ! c) = None \<longrightarrow> updateSettings_case c p m r e s = (s, [])) \<and>
   (\<forall>a. currentRoom (sessions s ! c) = Some a \<longrightarrow>
      (p \<noteq> host (heap s ! a) \<longrightarrow> updateSettings_case c p m r e s = (s, [])) \<and>
      (p = host (heap s ! a) \<and> a < length (heap s) \<longrightarrow>
         (\<exists>s' out. updateSettings_case c p m r e s = (s', out) \<and>
            heap s' ! a = (heap s ! a)\<lparr>maxPlayers := m, roles := r\<rparr> \<and>
            gameStarted (heap s' ! a) = gameStarted (heap s ! a) \<and>
            (\<forall>b. b \<noteq> a \<longrightarrow> heap s' ! b = heap s ! b) \<and>
            rooms s' = rooms s \<and> sessions s' = sessions s \<and>
            out = broadcastGameState (heap s' ! a) (isOpen e))))"
  by (auto simp: updateSettings_case_def Let_def)

theorem updateSettings_case_spec_witness:
  "currentRoom (sessions lobby2_started ! 2) = None \<and>
   updateSettings_case 2 (Some ''10'') 8 (RoleArray []) env1 lobby2_started = (lobby2_started, []) \<and>
   currentRoom (sessions lobby2_started ! 1) = Some 0 \<and>
   Some ''20'' \<noteq> host (heap lobby2_started ! 0) \<and>
   updateSettings_case 1 (Some ''20'') 8 (RoleArray []) env1 lobby2_started = (lobby2_started, []) \<and>
   currentRoom (sessions lobby2_started ! 0) = Some 0 \<and> 0 < length (heap lobby2_started) \<and>
   Some ''10'' = host (heap lobby2_started ! 0) \<and> gameStarted (heap lobby2_started ! 0) \<and>
   (\<exists>s' out. updateSettings_case 0 (Some ''10'') 8 (RoleArray []) env1 lobby2_started = (s', out) \<and>
      heap s' ! 0 = (heap lobby2_started ! 0)\<lparr>maxPlayers := 8, roles := RoleArray []\<rparr> \<and>
      gameStarted (heap s' ! 0) \<and> rooms s' = rooms lobby2_started \<and>
      map fst out = [0, 1])"
proof -
  have u: "currentRoom (sessions lobby2_started ! 2) = None"
    and h1: "currentRoom (sessions lobby2_started ! 0) = Some 0"
    and h1': "currentRoom (sessions lobby2_started ! 1) = Some 0"
    and h2: "0 < length (heap lobby2_started)"
    and h3: "Some ''10'' = host (heap lobby2_started ! 0)"
    and h3': "Some ''20'' \<noteq> host (heap lobby2_started ! 0)"
    and h4: "gameStarted (heap lobby2_started ! 0)"
    by (simp_all add: lobby2_started_def lobby2_def room2_def)
  have A: "updateSettings_case 2 (Some ''10'') 8 (RoleArray []) env1 lobby2_started = (lobby2_started, [])"
    using updateSettings_case_spec [of lobby2_started 2 "Some ''10''" 8 "RoleArray []" env1] u
    by blast
  have B: "updateSettings_case 1 (Some ''20'') 8 (RoleArray []) env1 lobby2_started = (lobby2_started, [])"
    using updateSettings_case_spec [of lobby2_started 1 "Some ''20''" 8 "RoleArray []" env1] h1' h3'
    by blast
  have "\<exists>s' out. updateSettings_case 0 (Some ''10'') 8 (RoleArray []) env1 lobby2_started = (s', out) \<and>
      heap s' ! 0 = (heap lobby2_started ! 0)\<lparr>maxPlayers := 8, roles := RoleArray []\<rparr> \<and>
      gameStarted (heap s' ! 0) = gameStarted (heap lobby2_started ! 0) \<and>
      rooms s' = rooms lobby2_started \<and>
      out = broadcastGameState (heap s' ! 0) (isOpen env1)"
    using updateSettings_case_spec [of lobby2_started 0 "Some ''10''" 8 "RoleArray []" env1] h1 h2 h3
    by blast
  then have C: "\<exists>s' out. updateSettings_case 0 (Some ''10'') 8 (RoleArray []) env1 lobby2_started = (s', out) \<and>
      heap s' ! 0 = (heap lobby2_started ! 0)\<lparr>maxPlayers := 8, roles := RoleArray []\<rparr> \<and>
      gameStarted (heap s' ! 0) \<and> rooms s' = rooms lobby2_started \<and>
      map fst out = [0, 1]"
    using h4
    by (auto simp: broadcastGameState_def lobby2_started_def lobby2_def room2_def env1_def)
  show ?thesis using u h1 h1' h2 h3 h3' h4 A B C by blast
qed

section \<open>Leaving twice\<close>

lemma leaveRoom_case_detaches:
  "c < length (sessions s) \<Longrightarrow> currentRoom (sessions (fst (leaveRoom_case c e s)) ! c) = None"
  by (auto simp: leaveRoom_case_def Let_def set_currentRoom_def split: option.splits)

lemma leaveRoom_case_length:
  "length (sessions (fst (leaveRoom_case c e s))) = length (sessions s)"
  by (auto simp: leaveRoom_case_def Let_def set_currentRoom_def split: option.splits)

lemma on_close_unattached:
  "currentRoom (sessions s ! c) = None \<Longrightarrow> on_close c e s = (s, [])"
  by (simp add: on_close_def)

text \<open>
  Claim C9. After the leaveRoom case has run for a connection, the close handler of the
  same connection changes nothing and sends nothing: the member is not removed again, the
  member count is not decremented again and the host is not replaced again.
\<close>

theorem leave_then_close:
  "\<exists>s1 out1. step (Message c LeaveRoom e) s = Some (s1, out1) \<and>
              step (Close c e') s1 = Some (s1, [])"
proof (cases "c < length (sessions s)")
  case True
  let ?s1 = "fst (leaveRoom_case c e s)"
  have "step (Message c LeaveRoom e) s = Some (?s1, snd (leaveRoom_case c e s))"
    using True by simp
  moreover have "step (Close c e') ?s1 = Some (?s1, [])"
    using True leaveRoom_case_detaches [OF True, of e]
    by (simp add: leaveRoom_case_length on_close_unattached)
  ultimately show ?thesis by blast
next
  case False
  then show ?thesis by simp
qed

lemma double_leave_example:
  "run [Message 1 LeaveRoom env1] lobby2 = run [Message 1 LeaveRoom env1, Close 1 env1] lobby2 \<and>
   (\<exists>s1 out1. run [Message 1 LeaveRoom env1, Close 1 env1] lobby2 = Some (s1, out1) \<and>
      map fst (players (heap s1 ! 0)) = [''10''] \<and> host (heap s1 ! 0) = Some ''10'')"
  by (simp add: lobby2_def room2_def env1_def leaveRoom_case_def removePlayer_def Let_def
      set_currentRoom_def on_close_def broadcastGameState_def)

section \<open>Starting the game\<close>


















section \<open>The registry invariant\<close>

lemma set_map_delete: "set (map_delete k xs) \<subseteq> set xs"
  by (induction xs) auto

lemma distinct_map_delete: "distinct (map fst xs) \<Longrightarrow> distinct (map fst (map_delete k xs))"
proof (induction xs)
  case Nil
  then show ?case by simp
next
  case (Cons x xs)
  have "fst ` set (map_delete k xs) \<subseteq> fst ` set xs"
    using set_map_delete [of k xs] by blast
  with Cons show ?case by auto
qed

lemma in_map_delete: "m \<in> set xs \<Longrightarrow> fst m \<noteq> k \<Longrightarrow> m \<in> set (map_delete k xs)"
  by (induction xs) auto

lemma set_map_set: "set (map_set k v xs) \<subseteq> insert (k, v) (set xs)"
  by (induction xs) auto

lemma fst_set_map_set: "fst ` set (map_set k v xs) = insert k (fst ` set xs)"
  by (induction xs) auto

lemma distinct_map_set: "distinct (map fst xs) \<Longrightarrow> distinct (map fst (map_set k v xs))"
proof (induction xs)
  case Nil
  then show ?case by simp
next
  case (Cons x xs)
  then show ?case by (auto simp: fst_set_map_set)
qed

lemma new_in_map_set: "(k, v) \<in> set (map_set k v xs)"
  by (induction xs) auto

lemma old_in_map_set: "m \<in> set xs \<Longrightarrow> fst m \<noteq> k \<Longrightarrow> m \<in> set (map_set k v xs)"
  by (induction xs) auto

lemma map_set_not_Nil: "map_set k v xs \<noteq> []"
  by (cases xs) auto

subsection \<open>Rooms\<close>

lemma room_wf_sessions:
  assumes "room_wf ss r" and "length ss \<le> length ss'"
    and "\<And>c. c < length ss \<Longrightarrow> playerId (ss' ! c) = playerId (ss ! c)"
  shows "room_wf ss' r"
proof -
  have "id' (snd m) = fst m \<and> ws (snd m) < length ss' \<and> playerId (ss' ! ws (snd m)) = fst m"
    if "m \<in> set (players r)" for m
  proof -
    from assms(1) that have *: "id' (snd m) = fst m" "ws (snd m) < length ss"
      "playerId (ss ! ws (snd m)) = fst m"
      unfolding room_wf_def by blast+
    show ?thesis using * assms(2) assms(3) [OF *(2)] by simp
  qed
  then show ?thesis using assms(1) unfolding room_wf_def by simp
qed

lemma removePlayer_code: "code (removePlayer pid r) = code r"
  by (simp add: removePlayer_def Let_def split: option.splits)

lemma room_wf_removePlayer:
  assumes "room_wf ss r"
  shows "room_wf ss (removePlayer pid r)"
proof -
  have "distinct (map fst (map_delete pid (players r)))"
    using assms by (simp add: room_wf_def distinct_map_delete)
  moreover have "\<forall>m\<in>set (map_delete pid (players r)).
      id' (snd m) = fst m \<and> ws (snd m) < length ss \<and> playerId (ss ! ws (snd m)) = fst m"
    using assms set_map_delete [of pid "players r"] unfolding room_wf_def by blast
  ultimately show ?thesis unfolding room_wf_def removePlayer_players by simp
qed

lemma room_live_removePlayer:
  assumes wf: "room_wf ss r" and live: "room_live r"
    and ne: "players (removePlayer pid r) \<noteq> []"
  shows "room_live (removePlayer pid r)"
proof (cases "host r = Some pid")
  case True
  from removePlayer_host [OF True ne] show ?thesis
    using ne by (auto simp: oldest_is_host_def room_live_def)
next
  case False
  then have eq: "removePlayer pid r = r\<lparr>players := map_delete pid (players r)\<rparr>"
    by (auto simp: removePlayer_def Let_def)
  from live obtain m where m: "m \<in> set (players r)" "host r = Some (id' (snd m))"
    by (auto simp: room_live_def)
  have "fst m \<noteq> pid" using wf m False by (auto simp: room_wf_def)
  then have "m \<in> set (map_delete pid (players r))" using m(1) by (rule in_map_delete [rotated])
  then show ?thesis
    using ne m(2) unfolding eq room_live_def by auto
qed

lemma room_wf_join:
  assumes "room_wf ss r" and "c < length ss"
  shows "room_wf ss (r\<lparr>players :=
           map_set (playerId (ss ! c)) \<lparr>id' = playerId (ss ! c), ws = c, joinTime = t\<rparr> (players r)\<rparr>)"
proof -
  let ?k = "playerId (ss ! c)"
  let ?v = "\<lparr>id' = ?k, ws = c, joinTime = t\<rparr>"
  have d: "distinct (map fst (map_set ?k ?v (players r)))"
    using assms(1) by (simp add: room_wf_def distinct_map_set)
  have "id' (snd m) = fst m \<and> ws (snd m) < length ss \<and> playerId (ss ! ws (snd m)) = fst m"
    if "m \<in> set (map_set ?k ?v (players r))" for m
  proof -
    from that set_map_set [of ?k ?v "players r"] have "m = (?k, ?v) \<or> m \<in> set (players r)"
      by blast
    then show ?thesis
    proof
      assume "m = (?k, ?v)"
      then show ?thesis using assms(2) by simp
    next
      assume "m \<in> set (players r)"
      then show ?thesis using assms(1) unfolding room_wf_def by blast
    qed
  qed
  with d show ?thesis unfolding room_wf_def by simp
qed

lemma room_live_join:
  assumes wf: "room_wf ss r" and live: "room_live r"
  shows "room_live (r\<lparr>players := map_set k \<lparr>id' = k, ws = c, joinTime = t\<rparr> (players r)\<rparr>)"
proof -
  from live obtain m where m: "m \<in> set (players r)" "host r = Some (id' (snd m))"
    by (auto simp: room_live_def)
  let ?ps = "map_set k \<lparr>id' = k, ws = c, joinTime = t\<rparr> (players r)"
  have "\<exists>m'\<in>set ?ps. host r = Some (id' (snd m'))"
  proof (cases "fst m = k")
    case True
    then have "host r = Some k" using wf m by (auto simp: room_wf_def)
    have "(k, \<lparr>id' = k, ws = c, joinTime = t\<rparr>) \<in> set ?ps" by (rule new_in_map_set)
    moreover have "host r = Some (id' (snd (k, \<lparr>id' = k, ws = c, joinTime = t\<rparr>)))"
      using \<open>host r = Some k\<close> by simp
    ultimately show ?thesis by (rule rev_bexI)
  next
    case False
    have "m \<in> set ?ps" using m(1) False by (rule old_in_map_set)
    then show ?thesis using m(2) by (rule rev_bexI)
  qed
  then show ?thesis by (simp add: room_live_def map_set_not_Nil)
qed

lemma inv_init: "server_inv init"
  by (simp add: server_inv_def registry_ok_def init_def)

lemma inv_update_room:
  assumes "server_inv s" and "a < length (heap s)" and "room_wf (sessions s) r'"
    and "code r' = code (heap s ! a)"
    and "\<And>cd. rooms s cd = Some a \<Longrightarrow> room_live r'"
  shows "server_inv (s\<lparr>heap := (heap s)[a := r']\<rparr>)"
proof -
  have reg: "registry_ok (s\<lparr>heap := (heap s)[a := r']\<rparr>)"
    unfolding registry_ok_def
  proof (intro allI impI)
    fix cd b
    assume "rooms (s\<lparr>heap := (heap s)[a := r']\<rparr>) cd = Some b"
    then have b: "rooms s cd = Some b" by simp
    with assms(1) have old: "b < length (heap s)" "code (heap s ! b) = cd" "room_live (heap s ! b)"
      unfolding server_inv_def registry_ok_def by blast+
    show "b < length (heap (s\<lparr>heap := (heap s)[a := r']\<rparr>)) \<and>
          code (heap (s\<lparr>heap := (heap s)[a := r']\<rparr>) ! b) = cd \<and>
          room_live (heap (s\<lparr>heap := (heap s)[a := r']\<rparr>) ! b)"
    proof (cases "b = a")
      case True
      then show ?thesis using old assms(2,4) assms(5) [of cd] b by simp
    next
      case False
      then show ?thesis using old by simp
    qed
  qed
  have wf: "room_wf (sessions s) ((heap s)[a := r'] ! b)" if "b < length (heap s)" for b
    using that assms(1,3) by (cases "b = a") (auto simp: server_inv_def)
  have cur: "\<forall>c<length (sessions s). \<forall>b. currentRoom (sessions s ! c) = Some b \<longrightarrow> b < length (heap s)"
    using assms(1) by (simp add: server_inv_def)
  show ?thesis
    unfolding server_inv_def using reg wf cur by simp
qed

lemma inv_update_unregister:
  assumes "server_inv s" and "a < length (heap s)" and "room_wf (sessions s) r'"
    and "code r' = code (heap s ! a)"
  shows "server_inv (s\<lparr>heap := (heap s)[a := r'], rooms := (rooms s)(code (heap s ! a) := None)\<rparr>)"
proof -
  let ?s' = "s\<lparr>heap := (heap s)[a := r'], rooms := (rooms s)(code (heap s ! a) := None)\<rparr>"
  have reg: "registry_ok ?s'"
    unfolding registry_ok_def
  proof (intro allI impI)
    fix cd b
    assume "rooms ?s' cd = Some b"
    then have ne: "cd \<noteq> code (heap s ! a)" and b: "rooms s cd = Some b"
      by (auto split: if_splits)
    with assms(1) have old: "b < length (heap s)" "code (heap s ! b) = cd" "room_live (heap s ! b)"
      unfolding server_inv_def registry_ok_def by blast+
    have "b \<noteq> a" using old(2) ne by auto
    then show "b < length (heap ?s') \<and> code (heap ?s' ! b) = cd \<and> room_live (heap ?s' ! b)"
      using old by simp
  qed
  have wf: "room_wf (sessions s) ((heap s)[a := r'] ! b)" if "b < length (heap s)" for b
    using that assms(1,3) by (cases "b = a") (auto simp: server_inv_def)
  have cur: "\<forall>c<length (sessions s). \<forall>b. currentRoom (sessions s ! c) = Some b \<longrightarrow> b < length (heap s)"
    using assms(1) by (simp add: server_inv_def)
  show ?thesis
    unfolding server_inv_def using reg wf cur by simp
qed

lemma inv_set_currentRoom:
  assumes "server_inv s" and "\<And>a. v = Some a \<Longrightarrow> a < length (heap s)"
  shows "server_inv (set_currentRoom c v s)"
proof -
  let ?ss = "(sessions s)[c := (sessions s ! c)\<lparr>currentRoom := v\<rparr>]"
  have ids: "playerId (?ss ! d) = playerId (sessions s ! d)" if "d < length (sessions s)" for d
    using that by (cases "d = c") simp_all
  have wf: "room_wf ?ss (heap s ! b)" if "b < length (heap s)" for b
  proof (rule room_wf_sessions)
    show "room_wf (sessions s) (heap s ! b)" using assms(1) that by (simp add: server_inv_def)
    show "length (sessions s) \<le> length ?ss" by simp
    show "\<And>d. d < length (sessions s) \<Longrightarrow> playerId (?ss ! d) = playerId (sessions s ! d)"
      by (rule ids)
  qed
  have cur: "b < length (heap s)"
    if "d < length (sessions s)" "currentRoom (?ss ! d) = Some b" for d b
  proof (cases "d = c")
    case True
    then show ?thesis using that assms(2) by simp
  next
    case False
    then show ?thesis using that assms(1) by (simp add: server_inv_def)
  qed
  have reg: "registry_ok (set_currentRoom c v s)"
    using assms(1) by (simp add: server_inv_def registry_ok_def set_currentRoom_def)
  show ?thesis
    unfolding server_inv_def using reg wf cur by (simp add: set_currentRoom_def)
qed

lemma inv_connection:
  assumes "server_inv s" and "currentRoom x = None"
  shows "server_inv (s\<lparr>sessions := sessions s @ [x]\<rparr>)"
proof -
  have wf: "room_wf (sessions s @ [x]) (heap s ! b)" if "b < length (heap s)" for b
  proof (rule room_wf_sessions)
    show "room_wf (sessions s) (heap s ! b)" using assms that by (simp add: server_inv_def)
    show "length (sessions s) \<le> length (sessions s @ [x])" by simp
    show "\<And>d. d < length (sessions s) \<Longrightarrow> playerId ((sessions s @ [x]) ! d) = playerId (sessions s ! d)"
      by (simp add: nth_append)
  qed
  have cur: "b < length (heap s)"
    if "d < Suc (length (sessions s))" "currentRoom ((sessions s @ [x]) ! d) = Some b" for d b
  proof (cases "d = length (sessions s)")
    case True
    then show ?thesis using that(2) assms(2) by simp
  next
    case False
    then have d: "d < length (sessions s)" using that(1) by simp
    then have "currentRoom (sessions s ! d) = Some b" using that(2) by (simp add: nth_append)
    with d assms(1) show ?thesis unfolding server_inv_def by blast
  qed
  have reg: "registry_ok (s\<lparr>sessions := sessions s @ [x]\<rparr>)"
    using assms by (simp add: server_inv_def registry_ok_def)
  show ?thesis
    unfolding server_inv_def using reg wf cur by simp
qed

subsection \<open>The handlers keep the invariant\<close>

lemma inv_createRoom_case:
  assumes "server_inv s" and "c < length (sessions s)" and "createRoom_case c e s = Some (s', out)"
  shows "server_inv s'"
proof -
  from assms(3) obtain cd where g: "generateRoomCode (rooms s) (randoms e) 0 = Some cd"
    by (auto simp: createRoom_case_def split: option.splits)
  have fresh: "rooms s cd = None" using generateRoomCode_result [OF g] by simp
  define pid where "pid = playerId (sessions s ! c)"
  define r where "r = \<lparr>code = cd, host = Some pid, maxPlayers = 5,
      roles = RoleArray [\<lparr>name = role_win, count' = 3\<rparr>, \<lparr>name = role_blank, count' = 2\<rparr>],
      players = [(pid, \<lparr>id' = pid, ws = c, joinTime = now e\<rparr>)], gameStarted = False\<rparr>"
  define s1 where "s1 = s\<lparr>heap := heap s @ [r], rooms := (rooms s)(cd \<mapsto> length (heap s))\<rparr>"
  have s': "s' = set_currentRoom c (Some (length (heap s))) s1"
    using assms(3) g by (simp add: createRoom_case_def Let_def createRoom_def s1_def r_def pid_def)
  have rwf: "room_wf (sessions s) r" using assms(2) by (simp add: room_wf_def r_def pid_def)
  have rlive: "room_live r" by (simp add: room_live_def r_def)
  have reg: "registry_ok s1"
    unfolding registry_ok_def
  proof (intro allI impI)
    fix cd' b
    assume b: "rooms s1 cd' = Some b"
    show "b < length (heap s1) \<and> code (heap s1 ! b) = cd' \<and> room_live (heap s1 ! b)"
    proof (cases "cd' = cd")
      case True
      then have "b = length (heap s)" using b by (simp add: s1_def)
      then show ?thesis using True rlive by (simp add: s1_def r_def)
    next
      case False
      then have "rooms s cd' = Some b" using b by (simp add: s1_def)
      with assms(1) have "b < length (heap s)" "code (heap s ! b) = cd'" "room_live (heap s ! b)"
        unfolding server_inv_def registry_ok_def by blast+
      then show ?thesis by (simp add: s1_def nth_append)
    qed
  qed
  have wf: "room_wf (sessions s) ((heap s @ [r]) ! b)" if "b < Suc (length (heap s))" for b
    using that assms(1) rwf by (cases "b = length (heap s)") (auto simp: nth_append server_inv_def)
  have cur: "\<forall>d<length (sessions s). \<forall>b. currentRoom (sessions s ! d) = Some b \<longrightarrow> b < Suc (length (heap s))"
    using assms(1) unfolding server_inv_def by (meson less_Suc_eq)
  have "server_inv s1"
    unfolding server_inv_def using reg wf cur by (simp add: s1_def)
  then show ?thesis
    unfolding s' by (rule inv_set_currentRoom) (simp add: s1_def)
qed

lemma inv_joinRoom_case:
  assumes "server_inv s" and "c < length (sessions s)"
  shows "server_inv (fst (joinRoom_case c roomCode e s))"
proof (cases "rooms s roomCode")
  case None
  then show ?thesis using assms(1) by (simp add: joinRoom_case_def)
next
  case (Some a)
  with assms(1) have a: "a < length (heap s)" and live: "room_live (heap s ! a)"
    unfolding server_inv_def registry_ok_def by blast+
  have wf: "room_wf (sessions s) (heap s ! a)" using assms(1) a by (simp add: server_inv_def)
  define r' where "r' = (heap s ! a)\<lparr>players :=
      map_set (playerId (sessions s ! c))
        \<lparr>id' = playerId (sessions s ! c), ws = c, joinTime = now e\<rparr> (players (heap s ! a))\<rparr>"
  have "server_inv (s\<lparr>heap := (heap s)[a := r']\<rparr>)"
  proof (rule inv_update_room [OF assms(1) a])
    show "room_wf (sessions s) r'" unfolding r'_def using wf assms(2) by (rule room_wf_join)
    show "code r' = code (heap s ! a)" by (simp add: r'_def)
    show "room_live r'" unfolding r'_def using wf live by (rule room_live_join)
  qed
  then have "server_inv (set_currentRoom c (Some a) (s\<lparr>heap := (heap s)[a := r']\<rparr>))"
    by (rule inv_set_currentRoom) (simp add: a)
  then show ?thesis
    using assms(1) Some by (simp add: joinRoom_case_def Let_def r'_def)
qed

lemma inv_departure:
  assumes "server_inv s" and "a < length (heap s)"
  shows "server_inv (if length (players (removePlayer pid (heap s ! a))) = 0
              then s\<lparr>heap := (heap s)[a := removePlayer pid (heap s ! a)],
                     rooms := (rooms s)(code (heap s ! a) := None)\<rparr>
              else s\<lparr>heap := (heap s)[a := removePlayer pid (heap s ! a)]\<rparr>)"
proof -
  have wf: "room_wf (sessions s) (heap s ! a)" using assms by (simp add: server_inv_def)
  then have wf': "room_wf (sessions s) (removePlayer pid (heap s ! a))"
    by (rule room_wf_removePlayer)
  show ?thesis
  proof (cases "players (removePlayer pid (heap s ! a)) = []")
    case True
    then show ?thesis
      using inv_update_unregister [OF assms wf' removePlayer_code] by simp
  next
    case False
    have "server_inv (s\<lparr>heap := (heap s)[a := removePlayer pid (heap s ! a)]\<rparr>)"
    proof (rule inv_update_room [OF assms wf' removePlayer_code])
      fix cd assume "rooms s cd = Some a"
      with assms(1) have "room_live (heap s ! a)" unfolding server_inv_def registry_ok_def by blast
      with wf show "room_live (removePlayer pid (heap s ! a))"
        using False by (rule room_live_removePlayer)
    qed
    then show ?thesis using False by simp
  qed
qed

lemma inv_leaveRoom_case:
  assumes "server_inv s" and "c < length (sessions s)"
  shows "server_inv (fst (leaveRoom_case c e s))"
proof (cases "currentRoom (sessions s ! c)")
  case None
  then show ?thesis using assms(1) by (simp add: leaveRoom_case_def)
next
  case (Some a)
  with assms have a: "a < length (heap s)" unfolding server_inv_def by blast
  let ?r = "removePlayer (playerId (sessions s ! c)) (heap s ! a)"
  have "fst (leaveRoom_case c e s) =
          set_currentRoom c None
            (if length (players ?r) = 0
             then s\<lparr>heap := (heap s)[a := ?r], rooms := (rooms s)(code (heap s ! a) := None)\<rparr>
             else s\<lparr>heap := (heap s)[a := ?r]\<rparr>)"
    using Some by (simp add: leaveRoom_case_def Let_def)
  moreover have "server_inv (set_currentRoom c None
            (if length (players ?r) = 0
             then s\<lparr>heap := (heap s)[a := ?r], rooms := (rooms s)(code (heap s ! a) := None)\<rparr>
             else s\<lparr>heap := (heap s)[a := ?r]\<rparr>))"
    by (rule inv_set_currentRoom [OF inv_departure [OF assms(1) a]]) simp
  ultimately show ?thesis by simp
qed

lemma inv_on_close:
  assumes "server_inv s" and "c < length (sessions s)"
  shows "server_inv (fst (on_close c e s))"
proof (cases "currentRoom (sessions s ! c)")
  case None
  then show ?thesis using assms(1) by (simp add: on_close_def)
next
  case (Some a)
  with assms have a: "a < length (heap s)" unfolding server_inv_def by blast
  let ?r = "removePlayer (playerId (sessions s ! c)) (heap s ! a)"
  have "fst (on_close c e s) =
            (if length (players ?r) = 0
             then s\<lparr>heap := (heap s)[a := ?r], rooms := (rooms s)(code (heap s ! a) := None)\<rparr>
             else s\<lparr>heap := (heap s)[a := ?r]\<rparr>)"
    using Some a by (simp add: on_close_def Let_def removePlayer_code)
  then show ?thesis using inv_departure [OF assms(1) a] by simp
qed

lemma inv_updateSettings_case:
  assumes "server_inv s" and "c < length (sessions s)"
  shows "server_inv (fst (updateSettings_case c p m r e s))"
proof (cases "currentRoom (sessions s ! c)")
  case None
  then show ?thesis using assms(1) by (simp add: updateSettings_case_def)
next
  case (Some a)
  with assms have a: "a < length (heap s)" unfolding server_inv_def by blast
  have wf: "room_wf (sessions s) (heap s ! a)" using assms(1) a by (simp add: server_inv_def)
  let ?r = "(heap s ! a)\<lparr>maxPlayers := m, roles := r\<rparr>"
  have "server_inv (s\<lparr>heap := (heap s)[a := ?r]\<rparr>)"
  proof (rule inv_update_room [OF assms(1) a])
    show "room_wf (sessions s) ?r" using wf by (simp add: room_wf_def)
    show "code ?r = code (heap s ! a)" by simp
    fix cd assume "rooms s cd = Some a"
    with assms(1) have "room_live (heap s ! a)" unfolding server_inv_def registry_ok_def by blast
    then show "room_live ?r" by (simp add: room_live_def)
  qed
  then show ?thesis using assms(1) Some by (simp add: updateSettings_case_def Let_def)
qed

lemma inv_startGame_case:
  assumes "server_inv s" and "c < length (sessions s)"
  shows "server_inv (fst (startGame_case c p e s))"
proof (cases "currentRoom (sessions s ! c)")
  case None
  then show ?thesis using assms(1) by (simp add: startGame_case_def)
next
  case (Some a)
  with assms have a: "a < length (heap s)" unfolding server_inv_def by blast
  have wf: "room_wf (sessions s) (heap s ! a)" using assms(1) a by (simp add: server_inv_def)
  let ?r = "(heap s ! a)\<lparr>gameStarted := True\<rparr>"
  have "server_inv (s\<lparr>heap := (heap s)[a := ?r]\<rparr>)"
  proof (rule inv_update_room [OF assms(1) a])
    show "room_wf (sessions s) ?r" using wf by (simp add: room_wf_def)
    show "code ?r = code (heap s ! a)" by simp
    fix cd assume "rooms s cd = Some a"
    with assms(1) have "room_live (heap s ! a)" unfolding server_inv_def registry_ok_def by blast
    then show "room_live ?r" by (simp add: room_live_def)
  qed
  then show ?thesis
    using assms(1) Some by (simp add: startGame_case_def Let_def split: roles_value.splits)
qed

lemma inv_step:
  assumes "server_inv s" and "step ev s = Some (s', out)"
  shows "server_inv s'"
proof (cases ev)
  case (Connection t)
  then show ?thesis using assms inv_connection [OF assms(1)] by auto
next
  case (Message c m e)
  show ?thesis
  proof (cases "c < length (sessions s)")
    case True
    show ?thesis
    proof (cases m)
      case CreateRoom
      then show ?thesis using assms Message True inv_createRoom_case by simp
    next
      case (JoinRoom cd)
      then show ?thesis
        using assms Message True inv_joinRoom_case [OF assms(1) True, of cd e] by auto
    next
      case LeaveRoom
      then show ?thesis
        using assms Message True inv_leaveRoom_case [OF assms(1) True, of e] by auto
    next
      case (UpdateSettings p mp rs)
      then show ?thesis
        using assms Message True inv_updateSettings_case [OF assms(1) True, of p mp rs e] by auto
    next
      case (StartGame p)
      then show ?thesis
        using assms Message True inv_startGame_case [OF assms(1) True, of p e] by auto
    next
      case Unhandled
      then show ?thesis using assms Message True by simp
    qed
  next
    case False
    then show ?thesis using assms Message by simp
  qed
next
  case (Close c e)
  then show ?thesis
    using assms inv_on_close [OF assms(1), of c e] by (auto split: if_splits)
qed

lemma reachable_inv: "reachable s \<Longrightarrow> server_inv s"
  by (induction rule: reachable.induct) (auto intro: inv_init inv_step)

lemma reachable_run:
  "reachable s \<Longrightarrow> run evs s = Some (s', out) \<Longrightarrow> reachable s'"
proof (induction evs arbitrary: s out)
  case Nil
  then show ?case by simp
next
  case (Cons ev evs)
  from Cons.prems(2) obtain s1 out1 out2 where
    st: "step ev s = Some (s1, out1)" and rn: "run evs s1 = Some (s', out2)"
    by (auto split: option.splits prod.splits)
  from Cons.prems(1) st have "reachable s1" by (rule reachable_step)
  then show ?case using rn by (rule Cons.IH)
qed

lemma distinct_map_outer: "distinct (map f (map g xs)) \<Longrightarrow> distinct (map g xs)"
  by (induction xs) auto

lemma reachable_players_distinct:
  assumes "reachable s" and "a < length (heap s)"
  shows "distinct (map fst (players (heap s ! a))) \<and>
         distinct (map (\<lambda>m. ws (snd m)) (players (heap s ! a)))"
proof -
  from reachable_inv [OF assms(1)] assms(2) have wf: "room_wf (sessions s) (heap s ! a)"
    by (simp add: server_inv_def)
  then have d: "distinct (map fst (players (heap s ! a)))" by (simp add: room_wf_def)
  have "map fst (players (heap s ! a))
        = map (\<lambda>w. playerId (sessions s ! w)) (map (\<lambda>m. ws (snd m)) (players (heap s ! a)))"
    using wf by (simp add: room_wf_def)
  with d have "distinct (map (\<lambda>w. playerId (sessions s ! w)) (map (\<lambda>m. ws (snd m)) (players (heap s ! a))))"
    by simp
  then have "distinct (map (\<lambda>m. ws (snd m)) (players (heap s ! a)))"
    by (rule distinct_map_outer)
  with d show ?thesis by simp
qed

lemma toString_10: "toString 10 = ''10''"
  by (simp add: toString.simps digit_char_def)

lemma reachable_lobby1: "reachable lobby1"
proof -
  have "run [Connection 10, Message 0 CreateRoom env1] init = Some (lobby1, snd (the (createRoom_case 0 env1 lobby0)))"
    using createRoom_case_lobby0
    by (simp add: init_def toString_10 lobby1_def lobby0_def)
  with reachable_init show ?thesis by (rule reachable_run)
qed

text \<open>
  Claim C3. In every reachable state every registered room is allocated, carries the code
  it is registered under, has at least one member, and its host is the id of one of its
  members. Hence after any step, a leave or a close among them, a room left without members
  is registered under no code.
\<close>

theorem registered_rooms_live:
  assumes "reachable s"
  shows "(\<forall>cd a. rooms s cd = Some a \<longrightarrow>
            a < length (heap s) \<and> code (heap s ! a) = cd \<and> players (heap s ! a) \<noteq> [] \<and>
            (\<exists>m\<in>set (players (heap s ! a)). host (heap s ! a) = Some (id' (snd m)))) \<and>
         (\<forall>ev s' out a. step ev s = Some (s', out) \<and> players (heap s' ! a) = [] \<longrightarrow>
            (\<forall>cd. rooms s' cd \<noteq> Some a))"
proof -
  have live: "a < length (heap t) \<and> code (heap t ! a) = cd \<and> players (heap t ! a) \<noteq> [] \<and>
            (\<exists>m\<in>set (players (heap t ! a)). host (heap t ! a) = Some (id' (snd m)))"
    if "reachable t" "rooms t cd = Some a" for t cd a
    using reachable_inv [OF that(1)] that(2)
    unfolding server_inv_def registry_ok_def room_live_def by blast
  have "rooms s' cd \<noteq> Some a"
    if "step ev s = Some (s', out)" "players (heap s' ! a) = []" for ev s' out a cd
  proof
    assume r: "rooms s' cd = Some a"
    from assms that(1) have "reachable s'" by (rule reachable_step)
    from live [OF this r] that(2) show False by simp
  qed
  with live [OF assms] show ?thesis by blast
qed

theorem registered_rooms_live_witness:
  "reachable lobby1 \<and> rooms lobby1 ''5500'' = Some 0 \<and>
   players (heap lobby1 ! 0) \<noteq> [] \<and> host (heap lobby1 ! 0) = Some ''10'' \<and>
   map fst (players (heap lobby1 ! 0)) = [''10''] \<and>
   (\<exists>s'. step (Message 0 LeaveRoom env1) lobby1 = Some (s', []) \<and>
         players (heap s' ! 0) = [] \<and> rooms s' ''5500'' = None) \<and>
   (\<exists>s'. step (Close 0 env1) lobby1 = Some (s', []) \<and>
         players (heap s' ! 0) = [] \<and> rooms s' ''5500'' = None)"
proof -
  note T = registered_rooms_live [OF reachable_lobby1]
  have r: "rooms lobby1 ''5500'' = Some 0" by (simp add: lobby1_def)
  from T r have "players (heap lobby1 ! 0) \<noteq> [] \<and>
      (\<exists>m\<in>set (players (heap lobby1 ! 0)). host (heap lobby1 ! 0) = Some (id' (snd m)))"
    by blast
  then have A: "players (heap lobby1 ! 0) \<noteq> [] \<and> host (heap lobby1 ! 0) = Some ''10''"
    by (simp add: lobby1_def)
  obtain s1 where s1: "step (Message 0 LeaveRoom env1) lobby1 = Some (s1, [])"
    "players (heap s1 ! 0) = []" "rooms s1 ''5500'' = None \<or> rooms s1 ''5500'' = Some 0"
    by (simp add: lobby1_def leaveRoom_case_def removePlayer_def Let_def set_currentRoom_def)
  from T s1(1,2) have "rooms s1 ''5500'' \<noteq> Some 0" by blast
  with s1 have B: "\<exists>s'. step (Message 0 LeaveRoom env1) lobby1 = Some (s', []) \<and>
         players (heap s' ! 0) = [] \<and> rooms s' ''5500'' = None"
    by blast
  obtain s2 where s2: "step (Close 0 env1) lobby1 = Some (s2, [])"
    "players (heap s2 ! 0) = []" "rooms s2 ''5500'' = None \<or> rooms s2 ''5500'' = Some 0"
    by (simp add: lobby1_def on_close_def removePlayer_def Let_def)
  from T s2(1,2) have "rooms s2 ''5500'' \<noteq> Some 0" by blast
  with s2 have C: "\<exists>s'. step (Close 0 env1) lobby1 = Some (s', []) \<and>
         players (heap s' ! 0) = [] \<and> rooms s' ''5500'' = None"
    by blast
  show ?thesis
    using reachable_lobby1 r A B C by (simp add: lobby1_def)
qed

section \<open>Distinct room codes\<close>

lemma digit_char_in: "digit_char d \<in> set ''0123456789''"
proof -
  have "d mod 10 < length ''0123456789''" by simp
  then show ?thesis unfolding digit_char_def by (rule nth_mem)
qed

lemma toString_four_digits:
  assumes "1000 \<le> n" and "n \<le> 9999"
  shows "length (toString n) = 4 \<and> set (toString n) \<subseteq> set ''0123456789''"
proof -
  have a: "\<not> n < 10" "\<not> n div 10 < 10" "\<not> n div 10 div 10 < 10" "n div 10 div 10 div 10 < 10"
    using assms by simp_all
  have "toString n = [digit_char (n div 10 div 10 div 10), digit_char (n div 10 div 10 mod 10),
                      digit_char (n div 10 mod 10), digit_char (n mod 10)]"
    using a
    by (subst toString.simps, subst toString.simps, subst toString.simps, subst toString.simps) simp
  then show ?thesis using digit_char_in by simp
qed

lemma draw_in_range:
  assumes "0 \<le> r" and "r < 1"
  shows "1000 \<le> nat \<lfloor>1000 + r * 9000\<rfloor> \<and> nat \<lfloor>1000 + r * 9000\<rfloor> \<le> 9999"
proof -
  have "1000 \<le> 1000 + r * 9000" using assms by simp
  then have lo: "1000 \<le> \<lfloor>1000 + r * 9000\<rfloor>" by (simp add: le_floor_iff)
  have "1000 + r * 9000 < 10000" using assms by simp
  then have "\<lfloor>1000 + r * 9000\<rfloor> < 10000" by (simp add: floor_less_iff)
  with lo show ?thesis by linarith
qed

lemma generateRoomCode_four_digits:
  assumes "random_ok rnd" and "generateRoomCode rms rnd i = Some cd"
  shows "rms cd = None \<and> (\<exists>n\<in>{1000..9999}. cd = toString n) \<and>
         length cd = 4 \<and> set cd \<subseteq> set ''0123456789''"
proof -
  from generateRoomCode_result [OF assms(2)] obtain j where
    fresh: "rms cd = None" and cd: "cd = toString (nat \<lfloor>1000 + rnd j * 9000\<rfloor>)"
    by blast
  have rng: "1000 \<le> nat \<lfloor>1000 + rnd j * 9000\<rfloor> \<and> nat \<lfloor>1000 + rnd j * 9000\<rfloor> \<le> 9999"
    using assms(1) by (intro draw_in_range) (simp_all add: random_ok_def)
  then have "\<exists>n\<in>{1000..9999}. cd = toString n" using cd by auto
  moreover have "length cd = 4 \<and> set cd \<subseteq> set ''0123456789''"
    unfolding cd using rng by (intro toString_four_digits) simp_all
  ultimately show ?thesis using fresh by blast
qed

text \<open>Once every code from 1000 to 9999 is registered the loop never leaves.\<close>

lemma generateRoomCode_saturated:
  assumes "random_ok rnd" and "\<forall>n\<in>{1000..9999}. rms (toString n) \<noteq> None"
  shows "generateRoomCode rms rnd i = None"
proof (cases "generateRoomCode rms rnd i")
  case None
  then show ?thesis .
next
  case (Some cd)
  from generateRoomCode_four_digits [OF assms(1) Some] assms(2) show ?thesis by blast
qed












end
